theory Spec2Isabelle
  imports Complex_Main
begin

section \<open>JavaScript numbers\<close>

text \<open>
  A JavaScript \<^verbatim>\<open>number\<close> is modelled as an exact real, one of the two infinities, or
  \<^verbatim>\<open>NaN\<close>. The load path coerces with \<^verbatim>\<open>Number(...)\<close>, which can give each of them.
  IEEE rounding and the sign of zero are outside the model.
\<close>

datatype jsnum = NaN | Num real | PInf | NInf

fun js_add :: "jsnum \<Rightarrow> jsnum \<Rightarrow> jsnum" where
  "js_add (Num a) (Num b) = Num (a + b)"
| "js_add NaN _ = NaN"
| "js_add _ NaN = NaN"
| "js_add PInf NInf = NaN"
| "js_add NInf PInf = NaN"
| "js_add PInf _ = PInf"
| "js_add _ PInf = PInf"
| "js_add NInf _ = NInf"
| "js_add _ NInf = NInf"

fun js_neg :: "jsnum \<Rightarrow> jsnum" where
  "js_neg NaN = NaN"
| "js_neg (Num a) = Num (- a)"
| "js_neg PInf = NInf"
| "js_neg NInf = PInf"

text \<open>An infinity times a number \<open>b\<close>: \<^verbatim>\<open>NaN\<close> for 0, else the infinity of the sign.\<close>

definition inf_times :: "jsnum \<Rightarrow> real \<Rightarrow> jsnum" where
  "inf_times i b = (if b = 0 then NaN else if 0 < b then i else js_neg i)"

fun js_mul :: "jsnum \<Rightarrow> jsnum \<Rightarrow> jsnum" where
  "js_mul (Num a) (Num b) = Num (a * b)"
| "js_mul NaN _ = NaN"
| "js_mul _ NaN = NaN"
| "js_mul PInf (Num b) = inf_times PInf b"
| "js_mul NInf (Num b) = inf_times NInf b"
| "js_mul (Num a) PInf = inf_times PInf a"
| "js_mul (Num a) NInf = inf_times NInf a"
| "js_mul PInf PInf = PInf"
| "js_mul NInf NInf = PInf"
| "js_mul PInf NInf = NInf"
| "js_mul NInf PInf = NInf"

text \<open>Division. A zero divisor is taken as \<^verbatim>\<open>+0\<close>.\<close>

fun js_div :: "jsnum \<Rightarrow> jsnum \<Rightarrow> jsnum" where
  "js_div (Num a) (Num b) =
     (if b = 0 then (if a = 0 then NaN else if 0 < a then PInf else NInf) else Num (a / b))"
| "js_div NaN _ = NaN"
| "js_div _ NaN = NaN"
| "js_div (Num a) PInf = Num 0"
| "js_div (Num a) NInf = Num 0"
| "js_div PInf (Num b) = (if 0 \<le> b then PInf else NInf)"
| "js_div NInf (Num b) = (if 0 \<le> b then NInf else PInf)"
| "js_div PInf PInf = NaN"
| "js_div PInf NInf = NaN"
| "js_div NInf PInf = NaN"
| "js_div NInf NInf = NaN"

fun js_lt :: "jsnum \<Rightarrow> jsnum \<Rightarrow> bool" where
  "js_lt (Num a) (Num b) = (a < b)"
| "js_lt NaN _ = False"
| "js_lt _ NaN = False"
| "js_lt PInf _ = False"
| "js_lt _ NInf = False"
| "js_lt NInf _ = True"
| "js_lt _ PInf = True"

fun js_gt :: "jsnum \<Rightarrow> jsnum \<Rightarrow> bool" where
  "js_gt a b = js_lt b a"

fun js_le :: "jsnum \<Rightarrow> jsnum \<Rightarrow> bool" where
  "js_le NaN _ = False"
| "js_le _ NaN = False"
| "js_le a b = (\<not> js_lt b a)"

text \<open>\<^verbatim>\<open>Math.max(a, b)\<close>: \<^verbatim>\<open>NaN\<close> as soon as one argument is.\<close>

fun js_max :: "jsnum \<Rightarrow> jsnum \<Rightarrow> jsnum" where
  "js_max NaN _ = NaN"
| "js_max _ NaN = NaN"
| "js_max a b = (if js_lt a b then b else a)"

text \<open>Truthiness of a number, as \<^verbatim>\<open>||\<close> tests it: \<^verbatim>\<open>0\<close> and \<^verbatim>\<open>NaN\<close> are falsy.\<close>

fun truthy :: "jsnum \<Rightarrow> bool" where
  "truthy (Num a) = (a \<noteq> 0)"
| "truthy NaN = False"
| "truthy PInf = True"
| "truthy NInf = True"

fun isNaN :: "jsnum \<Rightarrow> bool" where
  "isNaN NaN = True"
| "isNaN (Num a) = False"
| "isNaN PInf = False"
| "isNaN NInf = False"

section \<open>Entries\<close>

text \<open>
  \<^verbatim>\<open>interface SolarEntry { date: string; production: number; id: string }\<close>.
  The date is optional in the model because the load path copies \<^verbatim>\<open>entry.date\<close> from
  untyped storage as it is: \<open>None\<close> is \<^verbatim>\<open>undefined\<close>.
\<close>

record SolarEntry =
  date :: "string option"
  production :: jsnum
  id' :: string

section \<open>Weekly statistics\<close>

subsection \<open>The reducer of \<^verbatim>\<open>weeklyStats\<close> (solar-tracker.tsx)\<close>

record acc =
  total :: jsnum
  daysWithProduction :: nat
  acc_maxProduction :: jsnum
  acc_maxProductionDay :: "SolarEntry option"

definition reducer :: "acc \<Rightarrow> SolarEntry \<Rightarrow> acc" where
  "reducer a entry =
     (let p = production entry;
          a1 = a\<lparr>total := js_add (total a) p\<rparr>;
          a2 = (if js_gt p (Num 0)
                then a1\<lparr>daysWithProduction := Suc (daysWithProduction a1)\<rparr> else a1)
      in if js_gt p (acc_maxProduction a2)
         then a2\<lparr>acc_maxProduction := p, acc_maxProductionDay := Some entry\<rparr>
         else a2)"

record stats =
  weeklyTotal :: jsnum
  dailyAverage :: jsnum
  maxProduction :: jsnum
  maxProductionDay :: "SolarEntry option"

definition weeklyStats :: "SolarEntry list \<Rightarrow> stats" where
  "weeklyStats weeklyEntries =
     (if weeklyEntries = []
      then \<lparr>weeklyTotal = Num 0, dailyAverage = Num 0, maxProduction = Num 0,
            maxProductionDay = None\<rparr>
      else
        let a = foldl reducer
                  \<lparr>total = Num 0, daysWithProduction = 0, acc_maxProduction = Num 0,
                   acc_maxProductionDay = None\<rparr> weeklyEntries
        in \<lparr>weeklyTotal = total a,
            dailyAverage = (if daysWithProduction a > 0
                            then js_div (total a) (Num (real (daysWithProduction a)))
                            else Num 0),
            maxProduction = acc_maxProduction a,
            maxProductionDay = acc_maxProductionDay a\<rparr>)"

subsection \<open>\<^verbatim>\<open>calculateStats\<close> (worker utilities)\<close>

fun findMax :: "jsnum \<Rightarrow> SolarEntry option \<Rightarrow> SolarEntry list \<Rightarrow> jsnum \<times> SolarEntry option" where
  "findMax mx mxDay [] = (mx, mxDay)"
| "findMax mx mxDay (entry # rest) =
     (if js_gt (production entry) mx
      then findMax (production entry) (Some entry) rest
      else findMax mx mxDay rest)"

definition calculateStats :: "SolarEntry list \<Rightarrow> stats" where
  "calculateStats entries =
     (let tot = foldl (\<lambda>sum entry. js_add sum (production entry)) (Num 0) entries;
          days = length (filter (\<lambda>entry. js_gt (production entry) (Num 0)) entries);
          avg = (if days > 0 then js_div tot (Num (real days)) else Num 0);
          m = findMax (Num 0) None entries
      in \<lparr>weeklyTotal = tot, dailyAverage = avg, maxProduction = fst m,
          maxProductionDay = snd m\<rparr>)"

section \<open>Dates (the part of \<^verbatim>\<open>Date\<close> and date-fns the tracker uses)\<close>

text \<open>
  A \<^verbatim>\<open>Date\<close> is either invalid or a number of milliseconds since the epoch, read on the
  local clock; a local day has \<open>msPerDay\<close> milliseconds (daylight-saving shifts are
  outside the model). \<^verbatim>\<open>startOfWeek\<close> uses date-fns's default, Sunday.
\<close>

datatype jsdate = InvalidDate | Time int

datatype exn = RangeError | TypeError

definition msPerDay :: int where
  "msPerDay = 86400000"

text \<open>Day of the week of a day number (days since 1970-01-01, a Thursday); 0 is Sunday.\<close>

definition getDay :: "int \<Rightarrow> int" where
  "getDay day = (day + 4) mod 7"

fun startOfWeek :: "jsdate \<Rightarrow> jsdate" where
  "startOfWeek InvalidDate = InvalidDate"
| "startOfWeek (Time t) = (let day = t div msPerDay in Time ((day - getDay day) * msPerDay))"

fun addDays :: "jsdate \<Rightarrow> int \<Rightarrow> jsdate" where
  "addDays InvalidDate n = InvalidDate"
| "addDays (Time t) n = Time (t + n * msPerDay)"

fun date_gt :: "jsdate \<Rightarrow> jsdate \<Rightarrow> bool" where
  "date_gt (Time a) (Time b) = (a > b)"
| "date_gt _ _ = False"

text \<open>Year, month and day of a day number in the proleptic Gregorian calendar.\<close>

definition civil :: "int \<Rightarrow> int \<times> int \<times> int" where
  "civil day =
     (let z = day + 719468;
          era = z div 146097;
          doe = z - era * 146097;
          yoe = (doe - doe div 1460 + doe div 36524 - doe div 146096) div 365;
          y = yoe + era * 400;
          doy = doe - (365 * yoe + yoe div 4 - yoe div 100);
          mp = (5 * doy + 2) div 153;
          d = doy - (153 * mp + 2) div 5 + 1;
          m = (if mp < 10 then mp + 3 else mp - 9)
      in (if m \<le> 2 then y + 1 else y, m, d))"

definition digit :: "nat \<Rightarrow> char" where
  "digit n = ''0123456789'' ! (n mod 10)"

definition pad2 :: "nat \<Rightarrow> string" where
  "pad2 n = [digit (n div 10), digit n]"

definition pad4 :: "nat \<Rightarrow> string" where
  "pad4 n = [digit (n div 1000), digit (n div 100), digit (n div 10), digit n]"

text \<open>\<^verbatim>\<open>format(d, "yyyy-MM-dd")\<close>: throws \<^verbatim>\<open>RangeError\<close> on an invalid date. The four-digit
  year is what date-fns prints for the years 0 to 9999.\<close>

fun format_yyyy_MM_dd :: "jsdate \<Rightarrow> exn + string" where
  "format_yyyy_MM_dd InvalidDate = Inl RangeError"
| "format_yyyy_MM_dd (Time t) =
     (case civil (t div msPerDay) of
        (y, m, d) \<Rightarrow> Inr (pad4 (nat y) @ ''-'' @ pad2 (nat m) @ ''-'' @ pad2 (nat d)))"

text \<open>\<^verbatim>\<open>format(d, "d")\<close>, the day of the month without padding, and
  \<^verbatim>\<open>format(d, "EEE, MMM d")\<close>; both throw \<^verbatim>\<open>RangeError\<close> on an invalid date.\<close>

definition unpadded :: "nat \<Rightarrow> string" where
  "unpadded n = (if n < 10 then [digit n] else [digit (n div 10), digit n])"

fun format_d :: "jsdate \<Rightarrow> exn + string" where
  "format_d InvalidDate = Inl RangeError"
| "format_d (Time t) = (case civil (t div msPerDay) of (y, m, d) \<Rightarrow> Inr (unpadded (nat d)))"

definition dayNames :: "string list" where
  "dayNames = [''Sun'', ''Mon'', ''Tue'', ''Wed'', ''Thu'', ''Fri'', ''Sat'']"

definition monthNames :: "string list" where
  "monthNames = [''Jan'', ''Feb'', ''Mar'', ''Apr'', ''May'', ''Jun'', ''Jul'', ''Aug'', ''Sep'',
                 ''Oct'', ''Nov'', ''Dec'']"

fun format_EEE_MMM_d :: "jsdate \<Rightarrow> exn + string" where
  "format_EEE_MMM_d InvalidDate = Inl RangeError"
| "format_EEE_MMM_d (Time t) =
     (case civil (t div msPerDay) of
        (y, m, d) \<Rightarrow>
          Inr (dayNames ! nat (getDay (t div msPerDay)) @ '', '' @ monthNames ! nat (m - 1) @
               '' '' @ unpadded (nat d)))"

section \<open>Chart projection\<close>

subsection \<open>\<^verbatim>\<open>SolarChart\<close>: \<^verbatim>\<open>maxValue\<close> and \<^verbatim>\<open>chartData\<close>\<close>

definition maxValue :: "SolarEntry list \<Rightarrow> jsnum" where
  "maxValue entries =
     (if entries = [] then Num 10
      else
        let mx = foldl (\<lambda>mx entry. if js_gt (production entry) mx then production entry else mx)
                   (Num 0) entries
        in if truthy mx then mx else Num 10)"

record bar =
  key :: "string option"
  index :: nat
  dayOfMonth :: string
  formattedDate :: string
  bar_production :: jsnum
  heightPercentage :: jsnum
  isEmpty :: bool

definition mkBar :: "jsnum \<Rightarrow> nat \<Rightarrow> SolarEntry \<Rightarrow> string \<Rightarrow> string \<Rightarrow> bar" where
  "mkBar mv i entry dayStr fd =
     (let p = production entry;
          empty = js_le p (Num 0);
          h = (if empty then Num 4 else js_max (Num 5) (js_mul (js_div p mv) (Num 100)))
      in \<lparr>key = date entry, index = i, dayOfMonth = dayStr, formattedDate = fd,
          bar_production = p, heightPercentage = h, isEmpty = empty\<rparr>)"

text \<open>
  The loop of \<^verbatim>\<open>chartData\<close>. \<^verbatim>\<open>parseISO\<close> of date-fns is the parameter \<open>parseISO\<close>: it
  gives an invalid date for a string that is no ISO date, and the \<^verbatim>\<open>format\<close> calls then
  throw. An entry without a date makes \<^verbatim>\<open>parseISO\<close>, or the \<^verbatim>\<open>format\<close> after it, throw
  as well; the model reports \<open>TypeError\<close>. The exception leaves the loop at that entry.
\<close>

fun chartLoop :: "(string \<Rightarrow> jsdate) \<Rightarrow> jsnum \<Rightarrow> nat \<Rightarrow> SolarEntry list \<Rightarrow> exn + bar list" where
  "chartLoop parseISO mv i [] = Inr []"
| "chartLoop parseISO mv i (entry # rest) =
     (case date entry of
        None \<Rightarrow> Inl TypeError
      | Some s \<Rightarrow>
          (case format_d (parseISO s) of
             Inl e \<Rightarrow> Inl e
           | Inr dayStr \<Rightarrow>
               (case format_EEE_MMM_d (parseISO s) of
                  Inl e \<Rightarrow> Inl e
                | Inr fd \<Rightarrow>
                    (case chartLoop parseISO mv (Suc i) rest of
                       Inl e \<Rightarrow> Inl e
                     | Inr bars \<Rightarrow> Inr (mkBar mv i entry dayStr fd # bars)))))"

definition chartData :: "(string \<Rightarrow> jsdate) \<Rightarrow> SolarEntry list \<Rightarrow> exn + bar list" where
  "chartData parseISO entries = chartLoop parseISO (maxValue entries) 0 entries"

subsection \<open>\<^verbatim>\<open>processChartData\<close> (worker utilities)\<close>

text \<open>\<^verbatim>\<open>Math.max(...xs)\<close>; on no argument it is \<^verbatim>\<open>-Infinity\<close>.\<close>

fun Math_max :: "jsnum list \<Rightarrow> jsnum" where
  "Math_max [] = NInf"
| "Math_max [x] = js_max x x"
| "Math_max (x # y # ys) = js_max x (Math_max (y # ys))"

text \<open>The derived display fields of \<^verbatim>\<open>processedEntries\<close> (\<^verbatim>\<open>dayOfMonth\<close>, \<^verbatim>\<open>dayOfWeek\<close>,
  \<^verbatim>\<open>month\<close>, \<^verbatim>\<open>formattedDate\<close>) are left out: each processed entry is the entry.\<close>

definition processChartData :: "SolarEntry list \<Rightarrow> jsnum \<times> SolarEntry list" where
  "processChartData entries =
     (if entries = [] then (Num 0, [])
      else
        let mx = Math_max (map production entries)
        in (if truthy mx then mx else Num 10, entries))"

section \<open>The tracker's state\<close>

text \<open>
  The state of the \<^verbatim>\<open>SolarTracker\<close> component that the entry logic reads and writes:
  the \<^verbatim>\<open>useState\<close> cells \<^verbatim>\<open>date\<close> (here \<open>selectedDate\<close>), \<^verbatim>\<open>entries\<close>, \<^verbatim>\<open>isLoading\<close>,
  \<^verbatim>\<open>isInitialized\<close>, the refs, and the environment the save effect acts on: the pending
  timers (identifier, due time, the snapshot its callback closed over), the clock, and
  the log of \<^verbatim>\<open>safeStorage.set\<close> calls. \<open>nextUUID\<close> counts the identifiers drawn from
  \<^verbatim>\<open>crypto.randomUUID()\<close>. The write-only \<^verbatim>\<open>entriesRef\<close> is left out.
\<close>

record tracker =
  selectedDate :: "jsdate option"
  entries :: "SolarEntry list"
  isLoading :: bool
  isInitialized :: bool
  entriesMapRef :: "string option \<rightharpoonup> SolarEntry"
  weeklyEntriesCache :: "(string \<times> SolarEntry list) option"
  pendingUpdatesRef :: "string \<rightharpoonup> jsnum"
  initialRenderRef :: bool
  saveTimeoutRef :: "nat option"
  saveCleanup :: bool
  timers :: "(nat \<times> nat \<times> SolarEntry list) list"
  nextTimer :: nat
  now :: nat
  writes :: "SolarEntry list list"
  nextUUID :: nat

definition initial :: tracker where
  "initial =
     \<lparr>selectedDate = None, entries = [], isLoading = True, isInitialized = False,
      entriesMapRef = Map.empty, weeklyEntriesCache = None, pendingUpdatesRef = Map.empty,
      initialRenderRef = True, saveTimeoutRef = None, saveCleanup = False, timers = [],
      nextTimer = 1, now = 0, writes = [], nextUUID = 0\<rparr>"

text \<open>The \<open>n\<close>-th identifier drawn from \<^verbatim>\<open>crypto.randomUUID()\<close>: non-empty, and different
  draws differ.\<close>

definition randomUUID :: "nat \<Rightarrow> string" where
  "randomUUID n = ''uuid'' @ replicate n (CHR ''+'')"

text \<open>\<^verbatim>\<open>x || crypto.randomUUID()\<close> for an optional string: absent and empty are falsy.\<close>

fun idOrRandom :: "string option \<Rightarrow> nat \<Rightarrow> string \<times> nat" where
  "idOrRandom None c = (randomUUID c, Suc c)"
| "idOrRandom (Some i) c = (if i = [] then (randomUUID c, Suc c) else (i, c))"

text \<open>Rebuilding a \<^verbatim>\<open>Map\<close> with \<^verbatim>\<open>forEach(entry => map.set(entry.date, entry))\<close>.\<close>

definition setAll :: "(string option \<rightharpoonup> SolarEntry) \<Rightarrow> SolarEntry list \<Rightarrow> (string option \<rightharpoonup> SolarEntry)" where
  "setAll m es = foldl (\<lambda>m entry. m(date entry \<mapsto> entry)) m es"

section \<open>\<^verbatim>\<open>getCurrentWeekEntries\<close>\<close>

definition weekEntry :: "tracker \<Rightarrow> nat \<Rightarrow> string \<Rightarrow> SolarEntry \<times> nat" where
  "weekEntry st c weekDate =
     (case pendingUpdatesRef st weekDate of
        Some pendingProduction \<Rightarrow>
          (case idOrRandom (map_option id' (entriesMapRef st (Some weekDate))) c of
             (i, c') \<Rightarrow> (\<lparr>date = Some weekDate, production = pendingProduction, id' = i\<rparr>, c'))
      | None \<Rightarrow>
          (case idOrRandom (map_option id' (entriesMapRef st (Some weekDate))) c of
             (i, c') \<Rightarrow>
               (\<lparr>date = Some weekDate,
                 production = (case entriesMapRef st (Some weekDate) of
                                 Some entry \<Rightarrow> production entry | None \<Rightarrow> Num 0),
                 id' = i\<rparr>, c')))"

text \<open>The loop over the seven days; \<open>None\<close> is an exception thrown by \<^verbatim>\<open>format\<close>.\<close>

fun weekLoop :: "tracker \<Rightarrow> jsdate \<Rightarrow> nat list \<Rightarrow> nat \<Rightarrow> (SolarEntry list \<times> nat) option" where
  "weekLoop st weekStart [] c = Some ([], c)"
| "weekLoop st weekStart (i # is) c =
     (case format_yyyy_MM_dd (addDays weekStart (int i)) of
        Inl _ \<Rightarrow> None
      | Inr weekDate \<Rightarrow>
          (case weekEntry st c weekDate of
             (e, c') \<Rightarrow>
               (case weekLoop st weekStart is c' of
                  None \<Rightarrow> None
                | Some (es, c'') \<Rightarrow> Some (e # es, c''))))"

definition cached :: "tracker \<Rightarrow> string \<Rightarrow> SolarEntry list option" where
  "cached st weekStartStr =
     (case weeklyEntriesCache st of
        None \<Rightarrow> None
      | Some (d, es) \<Rightarrow> if d = weekStartStr then Some es else None)"

definition getCurrentWeekEntries :: "tracker \<Rightarrow> SolarEntry list \<times> tracker" where
  "getCurrentWeekEntries st =
     (case selectedDate st of
        None \<Rightarrow> ([], st)
      | Some d \<Rightarrow>
          (let weekStart = startOfWeek d in
           case format_yyyy_MM_dd weekStart of
             Inl _ \<Rightarrow> ([], st)
           | Inr weekStartStr \<Rightarrow>
               (case cached st weekStartStr of
                  Some es \<Rightarrow> (es, st)
                | None \<Rightarrow>
                    (case weekLoop st weekStart [0..<7] (nextUUID st) of
                       None \<Rightarrow> ([], st)
                     | Some (weekEntries, c) \<Rightarrow>
                         (weekEntries,
                          st\<lparr>weeklyEntriesCache := Some (weekStartStr, weekEntries),
                             nextUUID := c\<rparr>)))))"

section \<open>Upserts\<close>

fun findIndex :: "('a \<Rightarrow> bool) \<Rightarrow> 'a list \<Rightarrow> nat option" where
  "findIndex P [] = None"
| "findIndex P (x # xs) = (if P x then Some 0 else map_option Suc (findIndex P xs))"

text \<open>The functional update handed to \<^verbatim>\<open>setEntries\<close> in \<^verbatim>\<open>updateEntry\<close>; it also
  writes \<^verbatim>\<open>entriesMapRef\<close>. React runs it before the next render reads the state; the
  model runs it at the call.\<close>

definition setEntriesUpdate :: "tracker \<Rightarrow> string \<Rightarrow> jsnum \<Rightarrow> tracker" where
  "setEntriesUpdate st d p =
     (case findIndex (\<lambda>entry. date entry = Some d) (entries st) of
        Some existingEntryIndex \<Rightarrow>
          (let updatedEntries =
                 (entries st)[existingEntryIndex :=
                    (entries st ! existingEntryIndex)\<lparr>production := p\<rparr>]
           in st\<lparr>entries := updatedEntries,
                 entriesMapRef :=
                   (entriesMapRef st)(Some d \<mapsto> updatedEntries ! existingEntryIndex)\<rparr>)
      | None \<Rightarrow>
          (let newEntry = \<lparr>date = Some d, production = p, id' = randomUUID (nextUUID st)\<rparr>;
               updatedEntries = entries st @ [newEntry]
           in st\<lparr>entries := updatedEntries,
                 entriesMapRef := (entriesMapRef st)(Some d \<mapsto> last updatedEntries),
                 nextUUID := Suc (nextUUID st)\<rparr>))"

definition updateEntry :: "tracker \<Rightarrow> string \<Rightarrow> jsnum \<Rightarrow> tracker" where
  "updateEntry st d p =
     (if js_lt p (Num 0) then st
      else if js_gt p (Num 100) then st
      else
        let st1 = st\<lparr>pendingUpdatesRef := (pendingUpdatesRef st)(d \<mapsto> p)\<rparr>;
            st2 = setEntriesUpdate st1 d p;
            st3 = st2\<lparr>weeklyEntriesCache := None\<rparr>
        in st3\<lparr>pendingUpdatesRef := (pendingUpdatesRef st3)(d := None)\<rparr>)"

text \<open>\<^verbatim>\<open>handleEditBlur\<close> and the Enter branch of \<^verbatim>\<open>handleEditKeyDown\<close>: \<open>v\<close> is the
  number parsed from the edit field (\<^verbatim>\<open>0\<close> for the empty field).\<close>

definition handleEditBlur :: "tracker \<Rightarrow> string \<Rightarrow> jsnum \<Rightarrow> tracker" where
  "handleEditBlur st d v = (if isNaN v then st else updateEntry st d v)"

definition updateEntriesState :: "tracker \<Rightarrow> SolarEntry list \<Rightarrow> tracker" where
  "updateEntriesState st updatedEntries =
     st\<lparr>entries := updatedEntries,
        entriesMapRef := setAll Map.empty updatedEntries,
        weeklyEntriesCache := None\<rparr>"

definition onSubmit :: "tracker \<Rightarrow> jsdate \<Rightarrow> jsnum \<Rightarrow> tracker" where
  "onSubmit st today v =
     (case selectedDate st of
        None \<Rightarrow> st
      | Some d \<Rightarrow>
          if date_gt d today then st
          else
            (case format_yyyy_MM_dd d of
               Inl _ \<Rightarrow> st\<lparr>isLoading := False\<rparr>
             | Inr formattedDate' \<Rightarrow>
                 (let productionValue = (if truthy v then v else Num 0) in
                  (case entriesMapRef st (Some formattedDate') of
                     Some existingEntry \<Rightarrow>
                       updateEntriesState st
                         (map (\<lambda>entry. if date entry = Some formattedDate'
                                        then entry\<lparr>production := productionValue\<rparr> else entry)
                            (entries st))
                   | None \<Rightarrow>
                       updateEntriesState (st\<lparr>nextUUID := Suc (nextUUID st)\<rparr>)
                         (entries st @
                            [\<lparr>date = Some formattedDate', production = productionValue,
                              id' = randomUUID (nextUUID st)\<rparr>]))
                  \<lparr>isLoading := False\<rparr>)))"

text \<open>\<^verbatim>\<open>formSchema\<close>: a number, not \<^verbatim>\<open>NaN\<close>, non-negative, at most 100. The argument is
  the field after \<^verbatim>\<open>z.coerce\<close>.\<close>

definition formSchema :: "jsnum \<Rightarrow> jsnum option" where
  "formSchema v =
     (if isNaN v then None
      else if \<not> js_le (Num 0) v then None
      else if \<not> js_le v (Num 100) then None
      else Some v)"

text \<open>\<^verbatim>\<open>form.handleSubmit(onSubmit)\<close>: \<^verbatim>\<open>onSubmit\<close> runs on the validated values only.\<close>

definition handleSubmit :: "tracker \<Rightarrow> jsdate \<Rightarrow> jsnum \<Rightarrow> tracker" where
  "handleSubmit st today v = (case formSchema v of None \<Rightarrow> st | Some v' \<Rightarrow> onSubmit st today v')"

section \<open>Loading from storage\<close>

text \<open>
  The stored value is an array of type \<^verbatim>\<open>any[]\<close>. An element is \<open>None\<close> when it is
  \<^verbatim>\<open>null\<close> (reading \<^verbatim>\<open>entry.id\<close> then throws \<^verbatim>\<open>TypeError\<close>), else the three fields the
  loader reads, an absent field being \<open>None\<close> (\<open>JUndefined\<close> for the production).
\<close>

datatype jsval = JUndefined | JNull | JBool bool | JNumber jsnum | JString string

record rawEntry =
  raw_id :: "string option"
  raw_date :: "string option"
  raw_production :: jsval

text \<open>\<^verbatim>\<open>Number(v)\<close>. The conversion of a string is ECMAScript's \<^verbatim>\<open>StringToNumber\<close>,
  taken as the parameter \<open>s2n\<close>.\<close>

fun Number_of :: "(string \<Rightarrow> jsnum) \<Rightarrow> jsval \<Rightarrow> jsnum" where
  "Number_of s2n JUndefined = NaN"
| "Number_of s2n JNull = Num 0"
| "Number_of s2n (JBool b) = (if b then Num 1 else Num 0)"
| "Number_of s2n (JNumber n) = n"
| "Number_of s2n (JString s) = s2n s"

text \<open>\<^verbatim>\<open>chunk.map(entry => ({...entry, id: entry.id || crypto.randomUUID(), date: entry.date,
  production: Number(entry.production)}))\<close>, threading the identifier count; \<open>None\<close> is
  the \<^verbatim>\<open>TypeError\<close> of a \<^verbatim>\<open>null\<close> element.\<close>

fun processedChunk ::
  "(string \<Rightarrow> jsnum) \<Rightarrow> rawEntry option list \<Rightarrow> nat \<Rightarrow> (SolarEntry list \<times> nat) option" where
  "processedChunk s2n [] c = Some ([], c)"
| "processedChunk s2n (None # rest) c = None"
| "processedChunk s2n (Some entry # rest) c =
     (case idOrRandom (raw_id entry) c of
        (i, c') \<Rightarrow>
          (case processedChunk s2n rest c' of
             None \<Rightarrow> None
           | Some (es, c'') \<Rightarrow>
               Some (\<lparr>date = raw_date entry,
                      production = Number_of s2n (raw_production entry),
                      id' = i\<rparr> # es, c'')))"

text \<open>
  How a load ends: it completes, or an exception leaves it in the middle (nothing
  catches it, \<^verbatim>\<open>isLoading\<close> stays as it is), or it never ends.
\<close>

datatype load_result = Loaded tracker | Thrown tracker | Diverges

text \<open>\<^verbatim>\<open>processChunk(entries, startIndex, chunkSize)\<close> with the component mounted. Each
  \<^verbatim>\<open>setTimeout(..., 0)\<close> continuation is the recursive call. With \<open>chunkSize = 0\<close> and
  elements left the source reschedules itself for ever.\<close>

function processChunk ::
  "(string \<Rightarrow> jsnum) \<Rightarrow> tracker \<Rightarrow> rawEntry option list \<Rightarrow> nat \<Rightarrow> nat \<Rightarrow> load_result" where
  "processChunk s2n st ents startIndex chunkSize =
     (let endIndex = min (startIndex + chunkSize) (length ents);
          chunk = take (endIndex - startIndex) (drop startIndex ents)
      in case processedChunk s2n chunk (nextUUID st) of
           None \<Rightarrow> Thrown st
         | Some pc \<Rightarrow>
             (let st1 = st\<lparr>entriesMapRef := setAll (entriesMapRef st) (fst pc),
                           nextUUID := snd pc\<rparr>
              in if endIndex < length ents
                 then (if chunkSize = 0 then Diverges
                       else processChunk s2n st1 ents endIndex chunkSize)
                 else Loaded (st1\<lparr>entries := entries st1 @ fst pc, isLoading := False,
                                  isInitialized := True\<rparr>)))"
  by pat_completeness auto
termination
  by (relation "measure (\<lambda>(s2n, st, ents, startIndex, chunkSize). length ents - startIndex)") auto

declare processChunk.simps [simp del]

text \<open>\<^verbatim>\<open>loadEntries\<close>: \<open>None\<close> is a missing key (\<^verbatim>\<open>safeStorage.get\<close> gives \<^verbatim>\<open>null\<close>).\<close>

definition loadEntries ::
  "(string \<Rightarrow> jsnum) \<Rightarrow> tracker \<Rightarrow> rawEntry option list option \<Rightarrow> load_result" where
  "loadEntries s2n st savedEntries =
     (case savedEntries of
        None \<Rightarrow> Loaded (st\<lparr>isLoading := False, isInitialized := True\<rparr>)
      | Some ents \<Rightarrow> processChunk s2n st ents 0 50)"


section \<open>The debounced save effect\<close>

definition clearTimeout :: "nat \<Rightarrow> tracker \<Rightarrow> tracker" where
  "clearTimeout i st = st\<lparr>timers := filter (\<lambda>(j, due, snap). j \<noteq> i) (timers st)\<rparr>"

text \<open>The cleanup the effect returns: it clears the timer and leaves the ref as it is.\<close>

definition saveEffectCleanup :: "tracker \<Rightarrow> tracker" where
  "saveEffectCleanup st =
     (case saveTimeoutRef st of None \<Rightarrow> st | Some i \<Rightarrow> clearTimeout i st)"

text \<open>One run of the effect, as React performs it when \<^verbatim>\<open>entries\<close>, \<^verbatim>\<open>isLoading\<close> or
  \<^verbatim>\<open>isInitialized\<close> changed: the cleanup of the previous run, if that run returned one,
  then the body. The callback of the new timer closes over \<^verbatim>\<open>entries\<close>.\<close>

definition saveEffect :: "tracker \<Rightarrow> tracker" where
  "saveEffect st =
     (let st0 = (if saveCleanup st then saveEffectCleanup st else st) in
      if isLoading st0 \<or> \<not> isInitialized st0 \<or> initialRenderRef st0
      then st0\<lparr>initialRenderRef := False, saveCleanup := False\<rparr>
      else
        let st1 = st0\<lparr>entriesMapRef := setAll Map.empty (entries st0)\<rparr>;
            st2 = (case saveTimeoutRef st1 of None \<Rightarrow> st1 | Some i \<Rightarrow> clearTimeout i st1);
            t = nextTimer st2
        in st2\<lparr>timers := timers st2 @ [(t, now st2 + 500, entries st2)],
               nextTimer := Suc t,
               saveTimeoutRef := Some t,
               saveCleanup := True\<rparr>)"

text \<open>The timer's callback: one \<^verbatim>\<open>safeStorage.set(STORAGE_KEY, dataToSave)\<close>, then the
  ref is reset.\<close>

definition fire :: "tracker \<Rightarrow> nat \<times> nat \<times> SolarEntry list \<Rightarrow> tracker" where
  "fire st timer =
     (case timer of (i, due, snap) \<Rightarrow> st\<lparr>writes := writes st @ [snap], saveTimeoutRef := None\<rparr>)"

text \<open>\<open>dt\<close> milliseconds pass with no other event: the timers that fall due run, in the
  order they were set (all have the same delay), and leave the table.\<close>

definition advance :: "tracker \<Rightarrow> nat \<Rightarrow> tracker" where
  "advance st dt =
     (let t' = now st + dt;
          due = filter (\<lambda>(i, d, snap). d \<le> t') (timers st);
          st1 = foldl fire st due
      in st1\<lparr>timers := filter (\<lambda>(i, d, snap). \<not> d \<le> t') (timers st), now := t'\<rparr>)"

section \<open>Notions used to state the properties\<close>

text \<open>The production a day of the week shows according to the specification: the pending
  value if there is one, else the stored entry's, else 0.\<close>

definition spec_dayProduction :: "tracker \<Rightarrow> string \<Rightarrow> jsnum" where
  "spec_dayProduction st weekDate =
     (case pendingUpdatesRef st weekDate of
        Some p \<Rightarrow> p
      | None \<Rightarrow> (case entriesMapRef st (Some weekDate) of
                   Some entry \<Rightarrow> production entry
                 | None \<Rightarrow> Num 0))"

text \<open>The sum of a list of numbers: \<^verbatim>\<open>NaN\<close> when the list holds \<^verbatim>\<open>NaN\<close> or both
  infinities, an infinity when it holds that one, else the sum of the reals.\<close>

fun the_num :: "jsnum \<Rightarrow> real" where
  "the_num (Num a) = a"
| "the_num NaN = 0"
| "the_num PInf = 0"
| "the_num NInf = 0"

definition spec_sum :: "jsnum list \<Rightarrow> jsnum" where
  "spec_sum xs =
     (if NaN \<in> set xs \<or> (PInf \<in> set xs \<and> NInf \<in> set xs) then NaN
      else if PInf \<in> set xs then PInf
      else if NInf \<in> set xs then NInf
      else Num (\<Sum>x\<leftarrow>xs. the_num x))"

text \<open>The bound of the data model, \<open>0 \<le> production \<le> 100\<close>.\<close>

definition in_range :: "jsnum \<Rightarrow> bool" where
  "in_range p = (js_le (Num 0) p \<and> js_le p (Num 100))"

text \<open>The store invariant: the bound for every entry of the listing and of the map, one
  entry per date in the listing, every entry of the listing is the one the map holds
  under its date, and no pending value is left.\<close>

definition store_inv :: "tracker \<Rightarrow> bool" where
  "store_inv st =
     ((\<forall>e\<in>set (entries st). in_range (production e)) \<and>
      distinct (map date (entries st)) \<and>
      (\<forall>k e. entriesMapRef st k = Some e \<longrightarrow> in_range (production e)) \<and>
      (\<forall>e\<in>set (entries st). entriesMapRef st (date e) = Some e) \<and>
      pendingUpdatesRef st = Map.empty)"

text \<open>The elements a batch of objects is processed into, with the identifier count.\<close>

fun processedObjects :: "(string \<Rightarrow> jsnum) \<Rightarrow> rawEntry list \<Rightarrow> nat \<Rightarrow> SolarEntry list \<times> nat" where
  "processedObjects s2n [] c = ([], c)"
| "processedObjects s2n (entry # rest) c =
     (case idOrRandom (raw_id entry) c of
        (i, c') \<Rightarrow>
          (case processedObjects s2n rest c' of
             (es, c'') \<Rightarrow>
               (\<lparr>date = raw_date entry,
                 production = Number_of s2n (raw_production entry),
                 id' = i\<rparr> # es, c'')))"

text \<open>A stored batch of objects that respects the data model already: productions that
  coerce into the bound, no date twice, no date of the listing.\<close>

definition valid_batch :: "(string \<Rightarrow> jsnum) \<Rightarrow> tracker \<Rightarrow> rawEntry list \<Rightarrow> bool" where
  "valid_batch s2n st os =
     ((\<forall>r\<in>set os. in_range (Number_of s2n (raw_production r))) \<and>
      distinct (map raw_date os) \<and>
      (\<forall>r\<in>set os. raw_date r \<notin> date ` set (entries st)))"

text \<open>The states reached by the user interface and the effects, loading only valid
  batches.\<close>

inductive reachable :: "tracker \<Rightarrow> bool" where
  r_initial: "reachable initial"
| r_setDate: "reachable st \<Longrightarrow> reachable (st\<lparr>selectedDate := Some d\<rparr>)"
| r_edit: "reachable st \<Longrightarrow> reachable (handleEditBlur st d v)"
| r_submit: "reachable st \<Longrightarrow> reachable (handleSubmit st today v)"
| r_week: "reachable st \<Longrightarrow> reachable (snd (getCurrentWeekEntries st))"
| r_effect: "reachable st \<Longrightarrow> reachable (saveEffect st)"
| r_time: "reachable st \<Longrightarrow> reachable (advance st dt)"
| r_load: "reachable st \<Longrightarrow> valid_batch s2n st os \<Longrightarrow>
           loadEntries s2n st (Some (map Some os)) = Loaded st' \<Longrightarrow> reachable st'"
| r_load_none: "reachable st \<Longrightarrow> loadEntries s2n st None = Loaded st' \<Longrightarrow> reachable st'"

text \<open>The save effect schedules when the component is neither loading nor in its first
  render.\<close>

definition ready :: "tracker \<Rightarrow> bool" where
  "ready st = (\<not> isLoading st \<and> isInitialized st \<and> \<not> initialRenderRef st)"

text \<open>At most one save timer is pending, and the ref holds it.\<close>

definition timer_inv :: "tracker \<Rightarrow> bool" where
  "timer_inv st =
     (timers st = [] \<or>
      (saveCleanup st \<and>
       (\<exists>t due snap. timers st = [(t, due, snap)] \<and> saveTimeoutRef st = Some t)))"

text \<open>Two states with the same timers, refs of the effect, clock and write log: what a
  mutation of the entries leaves as it is.\<close>

definition same_timing :: "tracker \<Rightarrow> tracker \<Rightarrow> bool" where
  "same_timing st st' =
     (timers st' = timers st \<and> saveTimeoutRef st' = saveTimeoutRef st \<and>
      saveCleanup st' = saveCleanup st \<and> nextTimer st' = nextTimer st \<and>
      now st' = now st \<and> writes st' = writes st)"

section \<open>Properties of the weekly statistics\<close>

lemma foldl_reducer_total:
  "total (foldl reducer a es) = foldl (\<lambda>sum entry. js_add sum (production entry)) (total a) es"
  by (induction es arbitrary: a) (simp_all add: reducer_def Let_def)

lemma foldl_reducer_days:
  "daysWithProduction (foldl reducer a es) =
     daysWithProduction a + length (filter (\<lambda>entry. js_gt (production entry) (Num 0)) es)"
  by (induction es arbitrary: a) (simp_all add: reducer_def Let_def)

lemma foldl_reducer_max:
  "(acc_maxProduction (foldl reducer a es), acc_maxProductionDay (foldl reducer a es)) =
     findMax (acc_maxProduction a) (acc_maxProductionDay a) es"
  by (induction es arbitrary: a) (simp_all add: reducer_def Let_def)

lemma calculateStats_eq_weeklyStats: "calculateStats es = weeklyStats es"
proof (cases "es = []")
  case True
  then show ?thesis by (simp add: calculateStats_def weeklyStats_def)
next
  case False
  let ?a0 = "\<lparr>total = Num 0, daysWithProduction = 0, acc_maxProduction = Num 0,
                   acc_maxProductionDay = None\<rparr>"
  have m: "findMax (Num 0) None es =
      (acc_maxProduction (foldl reducer ?a0 es), acc_maxProductionDay (foldl reducer ?a0 es))"
    using foldl_reducer_max [of ?a0 es] by simp
  show ?thesis using False
    by (simp add: calculateStats_def weeklyStats_def Let_def foldl_reducer_total
        foldl_reducer_days m)
qed

lemma spec_sum_step: "spec_sum (js_add a x # xs) = spec_sum (a # x # xs)"
  by (cases a; cases x) (auto simp: spec_sum_def)

lemma foldl_js_add:
  "foldl (\<lambda>sum entry. js_add sum (production entry)) a es = spec_sum (a # map production es)"
proof (induction es arbitrary: a)
  case Nil
  then show ?case by (cases a) (simp_all add: spec_sum_def)
next
  case (Cons e es)
  then show ?case by (simp add: spec_sum_step)
qed

lemma spec_sum_zero: "spec_sum (Num 0 # xs) = spec_sum xs"
  by (simp add: spec_sum_def)

lemma js_lt_irrefl [simp]: "\<not> js_lt a a"
  by (cases a) simp_all

lemma js_gt_chain:
  "js_gt a m \<Longrightarrow> js_gt b a \<Longrightarrow> js_gt b m"
  "js_gt b a \<Longrightarrow> \<not> js_gt a b"
  "js_gt b a \<Longrightarrow> a \<noteq> b"
  "js_gt a m \<Longrightarrow> \<not> js_gt x m \<Longrightarrow> \<not> js_gt x a"
  "js_gt a m \<Longrightarrow> \<not> js_gt x m \<Longrightarrow> x \<noteq> a"
  by (cases a; cases b; cases m; cases x; simp; fail)+

lemma findMax_none:
  "\<forall>e\<in>set es. \<not> js_gt (production e) m \<Longrightarrow> findMax m d es = (m, d)"
  by (induction es arbitrary: m d) simp_all

lemma findMax_some:
  "\<exists>e\<in>set es. js_gt (production e) m \<Longrightarrow>
   \<exists>i<length es. findMax m d es = (production (es ! i), Some (es ! i)) \<and>
      js_gt (production (es ! i)) m \<and>
      (\<forall>j<length es. \<not> js_gt (production (es ! j)) (production (es ! i))) \<and>
      (\<forall>j<i. production (es ! j) \<noteq> production (es ! i))"
proof (induction es arbitrary: m d)
  case Nil
  then show ?case by simp
next
  case (Cons x xs)
  show ?case
  proof (cases "js_gt (production x) m")
    case gt: True
    show ?thesis
    proof (cases "\<exists>e\<in>set xs. js_gt (production e) (production x)")
      case True
      from Cons.IH [OF True, of "Some x"] obtain i where i: "i < length xs"
        "findMax (production x) (Some x) xs = (production (xs ! i), Some (xs ! i))"
        "js_gt (production (xs ! i)) (production x)"
        "\<forall>j<length xs. \<not> js_gt (production (xs ! j)) (production (xs ! i))"
        "\<forall>j<i. production (xs ! j) \<noteq> production (xs ! i)" by blast
      have a: "js_gt (production (xs ! i)) m" using gt i(3) by (rule js_gt_chain(1))
      have b: "\<not> js_gt (production x) (production (xs ! i))" using i(3) by (rule js_gt_chain(2))
      have c: "production x \<noteq> production (xs ! i)" using i(3) by (rule js_gt_chain(3))
      have "Suc i < length (x # xs) \<and>
        findMax m d (x # xs) = (production ((x # xs) ! Suc i), Some ((x # xs) ! Suc i)) \<and>
        js_gt (production ((x # xs) ! Suc i)) m \<and>
        (\<forall>j<length (x # xs). \<not> js_gt (production ((x # xs) ! j)) (production ((x # xs) ! Suc i))) \<and>
        (\<forall>j<Suc i. production ((x # xs) ! j) \<noteq> production ((x # xs) ! Suc i))"
        using i a b c gt by (auto simp: nth_Cons split: nat.splits)
      then show ?thesis by blast
    next
      case False
      then have "findMax (production x) (Some x) xs = (production x, Some x)"
        by (simp add: findMax_none)
      then have "0 < length (x # xs) \<and>
        findMax m d (x # xs) = (production ((x # xs) ! 0), Some ((x # xs) ! 0)) \<and>
        js_gt (production ((x # xs) ! 0)) m \<and>
        (\<forall>j<length (x # xs). \<not> js_gt (production ((x # xs) ! j)) (production ((x # xs) ! 0))) \<and>
        (\<forall>j<0. production ((x # xs) ! j) \<noteq> production ((x # xs) ! 0))"
        using gt False by (auto simp: nth_Cons split: nat.splits dest: nth_mem)
      then show ?thesis by blast
    qed
  next
    case ngt: False
    with Cons.prems have ex: "\<exists>e\<in>set xs. js_gt (production e) m" by auto
    from Cons.IH [OF ex, of d] obtain i where i: "i < length xs"
      "findMax m d xs = (production (xs ! i), Some (xs ! i))"
      "js_gt (production (xs ! i)) m"
      "\<forall>j<length xs. \<not> js_gt (production (xs ! j)) (production (xs ! i))"
      "\<forall>j<i. production (xs ! j) \<noteq> production (xs ! i)" by blast
    have b: "\<not> js_gt (production x) (production (xs ! i))" using i(3) ngt
      by (rule js_gt_chain(4))
    have c: "production x \<noteq> production (xs ! i)" using i(3) ngt by (rule js_gt_chain(5))
    have "Suc i < length (x # xs) \<and>
        findMax m d (x # xs) = (production ((x # xs) ! Suc i), Some ((x # xs) ! Suc i)) \<and>
        js_gt (production ((x # xs) ! Suc i)) m \<and>
        (\<forall>j<length (x # xs). \<not> js_gt (production ((x # xs) ! j)) (production ((x # xs) ! Suc i))) \<and>
        (\<forall>j<Suc i. production ((x # xs) ! j) \<noteq> production ((x # xs) ! Suc i))"
      using i b c ngt by (auto simp: nth_Cons split: nat.splits)
    then show ?thesis by blast
  qed
qed


text \<open>
  C3 (as amended). For every sequence of week entries, both stats computations
  (\<^verbatim>\<open>weeklyStats\<close> and \<^verbatim>\<open>calculateStats\<close>) return: the total, which is the sum of the
  productions; the daily average, which is the total divided by the number of entries
  with production above 0, or 0 when there is none; and, when some entry has production
  above 0, as maximum the first entry in list order whose production no other entry
  exceeds. When no entry has production above 0 the maximum entry is absent and maximum
  and average are 0; the total is still the sum, and is 0 when every production is 0.
\<close>

theorem weeklyStats_total_average_max:
  assumes "s = weeklyStats es \<or> s = calculateStats es"
  shows "weeklyTotal s = spec_sum (map production es) \<and>
         dailyAverage s =
           (let n = length (filter (\<lambda>e. js_gt (production e) (Num 0)) es)
            in if n = 0 then Num 0 else js_div (weeklyTotal s) (Num (real n))) \<and>
         ((\<exists>e\<in>set es. js_gt (production e) (Num 0)) \<longrightarrow>
            (\<exists>i<length es.
               maxProductionDay s = Some (es ! i) \<and> maxProduction s = production (es ! i) \<and>
               (\<forall>j<length es. \<not> js_gt (production (es ! j)) (production (es ! i))) \<and>
               (\<forall>j<i. production (es ! j) \<noteq> production (es ! i)))) \<and>
         ((\<forall>e\<in>set es. \<not> js_gt (production e) (Num 0)) \<longrightarrow>
            maxProductionDay s = None \<and> maxProduction s = Num 0 \<and> dailyAverage s = Num 0) \<and>
         ((\<forall>e\<in>set es. production e = Num 0) \<longrightarrow> weeklyTotal s = Num 0)"
proof -
  let ?n = "length (filter (\<lambda>e. js_gt (production e) (Num 0)) es)"
  from assms have s: "s = calculateStats es" by (simp add: calculateStats_eq_weeklyStats)
  have tot: "weeklyTotal s = spec_sum (map production es)"
    by (simp add: s calculateStats_def Let_def foldl_js_add spec_sum_zero)
  have avg: "dailyAverage s = (if ?n = 0 then Num 0 else js_div (weeklyTotal s) (Num (real ?n)))"
    by (simp add: s calculateStats_def Let_def)
  have mx: "(maxProduction s, maxProductionDay s) = findMax (Num 0) None es"
    by (simp add: s calculateStats_def Let_def)
  have 3: "dailyAverage s =
           (let n = ?n in if n = 0 then Num 0 else js_div (weeklyTotal s) (Num (real n)))"
    using avg by (simp add: Let_def)
  have 4: "(\<exists>e\<in>set es. js_gt (production e) (Num 0)) \<longrightarrow>
            (\<exists>i<length es.
               maxProductionDay s = Some (es ! i) \<and> maxProduction s = production (es ! i) \<and>
               (\<forall>j<length es. \<not> js_gt (production (es ! j)) (production (es ! i))) \<and>
               (\<forall>j<i. production (es ! j) \<noteq> production (es ! i)))"
  proof
    assume "\<exists>e\<in>set es. js_gt (production e) (Num 0)"
    from findMax_some [OF this, of None] obtain i where "i < length es"
      "findMax (Num 0) None es = (production (es ! i), Some (es ! i))"
      "\<forall>j<length es. \<not> js_gt (production (es ! j)) (production (es ! i))"
      "\<forall>j<i. production (es ! j) \<noteq> production (es ! i)" by blast
    with mx show "\<exists>i<length es.
               maxProductionDay s = Some (es ! i) \<and> maxProduction s = production (es ! i) \<and>
               (\<forall>j<length es. \<not> js_gt (production (es ! j)) (production (es ! i))) \<and>
               (\<forall>j<i. production (es ! j) \<noteq> production (es ! i))"
      by (intro exI [of _ i]) simp
  qed
  have 5: "(\<forall>e\<in>set es. \<not> js_gt (production e) (Num 0)) \<longrightarrow>
            maxProductionDay s = None \<and> maxProduction s = Num 0 \<and> dailyAverage s = Num 0"
  proof
    assume a: "\<forall>e\<in>set es. \<not> js_gt (production e) (Num 0)"
    then have "findMax (Num 0) None es = (Num 0, None)" by (rule findMax_none)
    moreover from a have "?n = 0" by (simp add: filter_empty_conv)
    ultimately show "maxProductionDay s = None \<and> maxProduction s = Num 0 \<and> dailyAverage s = Num 0"
      using mx avg by simp
  qed
  have 6: "(\<forall>e\<in>set es. production e = Num 0) \<longrightarrow> weeklyTotal s = Num 0"
  proof
    assume z: "\<forall>e\<in>set es. production e = Num 0"
    then have "set (map production es) \<subseteq> {Num 0}" by auto
    then have n: "NaN \<notin> set (map production es)" "PInf \<notin> set (map production es)"
      "NInf \<notin> set (map production es)" by auto
    have "(\<Sum>x\<leftarrow>map production es. the_num x) = 0"
      using z by (induction es) simp_all
    with n show "weeklyTotal s = Num 0" unfolding tot spec_sum_def by simp
  qed
  from tot 3 4 5 6 show ?thesis by blast
qed

theorem weeklyStats_total_average_max_witness:
  "weeklyTotal (weeklyStats
      [\<lparr>date = Some ''Mon'', production = Num 2, id' = ''a''\<rparr>,
       \<lparr>date = Some ''Tue'', production = Num 0, id' = ''b''\<rparr>,
       \<lparr>date = Some ''Wed'', production = Num 4, id' = ''c''\<rparr>]) = Num 6 \<and>
   dailyAverage (weeklyStats
      [\<lparr>date = Some ''Mon'', production = Num 2, id' = ''a''\<rparr>,
       \<lparr>date = Some ''Tue'', production = Num 0, id' = ''b''\<rparr>,
       \<lparr>date = Some ''Wed'', production = Num 4, id' = ''c''\<rparr>]) = Num 3 \<and>
   maxProduction (weeklyStats
      [\<lparr>date = Some ''Mon'', production = Num 2, id' = ''a''\<rparr>,
       \<lparr>date = Some ''Tue'', production = Num 0, id' = ''b''\<rparr>,
       \<lparr>date = Some ''Wed'', production = Num 4, id' = ''c''\<rparr>]) = Num 4 \<and>
   maxProductionDay (weeklyStats
      [\<lparr>date = Some ''Mon'', production = Num 2, id' = ''a''\<rparr>,
       \<lparr>date = Some ''Tue'', production = Num 0, id' = ''b''\<rparr>,
       \<lparr>date = Some ''Wed'', production = Num 4, id' = ''c''\<rparr>]) =
     Some \<lparr>date = Some ''Wed'', production = Num 4, id' = ''c''\<rparr> \<and>
   weeklyTotal (calculateStats [\<lparr>date = Some ''Mon'', production = Num 0, id' = ''a''\<rparr>]) = Num 0 \<and>
   dailyAverage (calculateStats [\<lparr>date = Some ''Mon'', production = Num 0, id' = ''a''\<rparr>]) = Num 0 \<and>
   maxProduction (calculateStats [\<lparr>date = Some ''Mon'', production = Num 0, id' = ''a''\<rparr>]) = Num 0 \<and>
   maxProductionDay (calculateStats [\<lparr>date = Some ''Mon'', production = Num 0, id' = ''a''\<rparr>]) = None"
  using weeklyStats_total_average_max
          [of "weeklyStats
                [\<lparr>date = Some ''Mon'', production = Num 2, id' = ''a''\<rparr>,
                 \<lparr>date = Some ''Tue'', production = Num 0, id' = ''b''\<rparr>,
                 \<lparr>date = Some ''Wed'', production = Num 4, id' = ''c''\<rparr>]"
              "[\<lparr>date = Some ''Mon'', production = Num 2, id' = ''a''\<rparr>,
                 \<lparr>date = Some ''Tue'', production = Num 0, id' = ''b''\<rparr>,
                 \<lparr>date = Some ''Wed'', production = Num 4, id' = ''c''\<rparr>]"]
        weeklyStats_total_average_max
          [of "calculateStats [\<lparr>date = Some ''Mon'', production = Num 0, id' = ''a''\<rparr>]"
              "[\<lparr>date = Some ''Mon'', production = Num 0, id' = ''a''\<rparr>]"]
  by (simp add: weeklyStats_def reducer_def Let_def spec_sum_def)

text \<open>A negative production, which the unvalidated load lets into the week, is not above 0
  and still enters the total.\<close>

theorem weeklyStats_negative_total_counterexample:
  "\<not> js_gt (Num (- 5)) (Num 0) \<and>
   weeklyTotal (weeklyStats [\<lparr>date = Some ''2024-01-01'', production = Num (- 5), id' = ''a''\<rparr>])
     = Num (- 5) \<and>
   weeklyTotal (calculateStats [\<lparr>date = Some ''2024-01-01'', production = Num (- 5), id' = ''a''\<rparr>])
     = Num (- 5)"
  by (simp add: weeklyStats_def calculateStats_def reducer_def Let_def)

section \<open>Properties of the chart projection\<close>

lemma chart_loop_findMax:
  "foldl (\<lambda>mx entry. if js_gt (production entry) mx then production entry else mx) m es =
     fst (findMax m d es)"
  by (induction es arbitrary: m d) simp_all

lemma maxValue_empty: "maxValue [] = Num 10"
  by (simp add: maxValue_def)

lemma chartData_empty: "chartData parseISO [] = Inr []"
  by (simp add: chartData_def)

lemma maxValue_all_zero:
  assumes "\<forall>e\<in>set es. production e = Num 0"
  shows "maxValue es = Num 10"
proof -
  from assms have "\<forall>e\<in>set es. \<not> js_gt (production e) (Num 0)" by simp
  then have "findMax (Num 0) None es = (Num 0, None)" by (rule findMax_none)
  then show ?thesis
    using chart_loop_findMax [of "Num 0" es None] by (simp add: maxValue_def Let_def)
qed

lemma js_gt_zero_truthy: "js_gt p (Num 0) \<Longrightarrow> truthy p"
  by (cases p) auto

lemma maxValue_positive:
  assumes "\<exists>e\<in>set es. js_gt (production e) (Num 0)"
  shows "(\<exists>e\<in>set es. maxValue es = production e) \<and>
         (\<forall>e\<in>set es. \<not> js_gt (production e) (maxValue es)) \<and> js_gt (maxValue es) (Num 0)"
proof -
  from findMax_some [OF assms, of None] obtain i where i: "i < length es"
    "findMax (Num 0) None es = (production (es ! i), Some (es ! i))"
    "js_gt (production (es ! i)) (Num 0)"
    "\<forall>j<length es. \<not> js_gt (production (es ! j)) (production (es ! i))" by blast
  from i(3) have t: "truthy (production (es ! i))" by (rule js_gt_zero_truthy)
  from assms have ne: "es \<noteq> []" by auto
  have mv: "maxValue es = production (es ! i)"
    using chart_loop_findMax [of "Num 0" es None] i(2) t ne by (simp add: maxValue_def Let_def)
  have "\<forall>e\<in>set es. \<not> js_gt (production e) (production (es ! i))"
    using i(4) by (auto simp: in_set_conv_nth)
  with mv i(1) i(3) show ?thesis by (metis nth_mem)
qed

text \<open>The maximum is a positive number or \<^verbatim>\<open>Infinity\<close>.\<close>

lemma maxValue_above_zero: "js_gt (maxValue es) (Num 0)"
proof (cases "\<exists>e\<in>set es. js_gt (production e) (Num 0)")
  case True
  from maxValue_positive [OF True] show ?thesis by simp
next
  case False
  then have "findMax (Num 0) None es = (Num 0, None)" by (simp add: findMax_none)
  then have "maxValue es = Num 10"
    using chart_loop_findMax [of "Num 0" es None] by (simp add: maxValue_def Let_def)
  then show ?thesis by simp
qed

text \<open>
  C5. The chart projection of \<^verbatim>\<open>SolarChart\<close>: for the empty sequence the maximum is the
  floor 10 and there is no bar; for a sequence in which every production is 0 the
  maximum is 10; for a sequence with a production above 0 the maximum is the production
  of one of the entries, and no entry's production exceeds it.
\<close>

theorem maxValue_floor_and_maximum:
  "maxValue [] = Num 10 \<and> chartData parseISO [] = Inr [] \<and>
   ((\<forall>e\<in>set es. production e = Num 0) \<longrightarrow> maxValue es = Num 10) \<and>
   ((\<exists>e\<in>set es. js_gt (production e) (Num 0)) \<longrightarrow>
      (\<exists>e\<in>set es. maxValue es = production e) \<and>
      (\<forall>e\<in>set es. \<not> js_gt (production e) (maxValue es)))"
  using maxValue_all_zero [of es] maxValue_positive [of es]
  by (simp add: maxValue_empty chartData_empty)

theorem maxValue_floor_and_maximum_witness:
  "maxValue [\<lparr>date = Some ''2024-01-01'', production = Num 0, id' = ''a''\<rparr>,
             \<lparr>date = Some ''2024-01-02'', production = Num 0, id' = ''b''\<rparr>] = Num 10 \<and>
   js_gt (production \<lparr>date = Some ''2024-01-02'', production = Num 7, id' = ''b''\<rparr>) (Num 0) \<and>
   maxValue [\<lparr>date = Some ''2024-01-01'', production = Num 2, id' = ''a''\<rparr>,
             \<lparr>date = Some ''2024-01-02'', production = Num 7, id' = ''b''\<rparr>,
             \<lparr>date = Some ''2024-01-03'', production = Num 3, id' = ''c''\<rparr>] = Num 7"
proof -
  let ?z = "[\<lparr>date = Some ''2024-01-01'', production = Num 0, id' = ''a''\<rparr>,
             \<lparr>date = Some ''2024-01-02'', production = Num 0, id' = ''b''\<rparr>]"
  let ?p = "[\<lparr>date = Some ''2024-01-01'', production = Num 2, id' = ''a''\<rparr>,
             \<lparr>date = Some ''2024-01-02'', production = Num 7, id' = ''b''\<rparr>,
             \<lparr>date = Some ''2024-01-03'', production = Num 3, id' = ''c''\<rparr>]"
  from maxValue_floor_and_maximum [of "\<lambda>s. InvalidDate" ?z] have z: "maxValue ?z = Num 10" by simp
  from maxValue_floor_and_maximum [of "\<lambda>s. InvalidDate" ?p]
  have "(\<exists>e\<in>set ?p. maxValue ?p = production e) \<and>
        (\<forall>e\<in>set ?p. \<not> js_gt (production e) (maxValue ?p))" by simp
  then have "maxValue ?p = Num 7" by auto
  with z show ?thesis by simp
qed

text \<open>\<^verbatim>\<open>processChartData\<close>, which nothing calls, has its own guard for the empty sequence
  and gives 0 there.\<close>

lemma processChartData_empty: "processChartData [] = (Num 0, [])"
  by (simp add: processChartData_def)

lemma chartLoop_Inr:
  "chartLoop parseISO mv i es = Inr bars \<Longrightarrow>
   length bars = length es \<and>
   (\<forall>j<length es. \<exists>dayStr fd. bars ! j = mkBar mv (i + j) (es ! j) dayStr fd)"
proof (induction es arbitrary: i bars)
  case Nil
  then show ?case by simp
next
  case (Cons e es)
  from Cons.prems obtain s dayStr fd rest where
    r: "chartLoop parseISO mv (Suc i) es = Inr rest" and b: "bars = mkBar mv i e dayStr fd # rest"
    by (auto split: option.splits sum.splits)
  from Cons.IH [OF r] have len: "length rest = length es"
    and ih: "\<forall>j<length es. \<exists>dayStr fd. rest ! j = mkBar mv (Suc i + j) (es ! j) dayStr fd"
    by simp_all
  have "\<exists>dayStr fd. bars ! j = mkBar mv (i + j) ((e # es) ! j) dayStr fd"
    if j: "j < length (e # es)" for j
  proof (cases j)
    case 0
    with b show ?thesis by auto
  next
    case (Suc j')
    with j have "j' < length es" by simp
    with ih Suc b show ?thesis by simp
  qed
  with len b show ?case by simp
qed

lemma chartLoop_total:
  "\<forall>e\<in>set es. \<exists>s t. date e = Some s \<and> parseISO s = Time t \<Longrightarrow>
   \<exists>bars. chartLoop parseISO mv i es = Inr bars"
proof (induction es arbitrary: i)
  case Nil
  then show ?case by simp
next
  case (Cons e es)
  then obtain s t where s: "date e = Some s" "parseISO s = Time t" by auto
  from Cons obtain rest where "chartLoop parseISO mv (Suc i) es = Inr rest" by fastforce
  with s show ?case by (simp split: prod.splits)
qed

lemma chartLoop_throws:
  "\<exists>e\<in>set es. date e = None \<or> (\<exists>s. date e = Some s \<and> parseISO s = InvalidDate) \<Longrightarrow>
   \<exists>x. chartLoop parseISO mv i es = Inl x"
proof (induction es arbitrary: i)
  case Nil
  then show ?case by simp
next
  case (Cons e es)
  show ?case
  proof (cases "date e = None \<or> (\<exists>s. date e = Some s \<and> parseISO s = InvalidDate)")
    case True
    then show ?thesis by auto
  next
    case False
    with Cons.prems have "\<exists>e\<in>set es. date e = None \<or> (\<exists>s. date e = Some s \<and> parseISO s = InvalidDate)"
      by auto
    from Cons.IH [OF this] obtain x where "chartLoop parseISO mv (Suc i) es = Inl x" by blast
    then show ?thesis by (simp split: option.splits sum.splits)
  qed
qed

lemma height_finite_positive:
  assumes "js_gt mv (Num 0)" and "0 < x"
  shows "js_le (Num 5) (js_max (Num 5) (js_mul (js_div (Num x) mv) (Num 100)))"
  using assms by (cases mv) auto

text \<open>
  C9 (as amended). \<^verbatim>\<open>chartData\<close> returns its bars when every entry has a date that
  \<^verbatim>\<open>parseISO\<close> accepts, and throws otherwise. For every entry of a projection that
  returns: when its production is at most 0 the bar has height 4 percent and is marked
  empty; otherwise the height is \<^verbatim>\<open>Math.max(5, production / maxValue * 100)\<close> and the bar is
  not marked empty; so the bar of every finite production above 0 is at least 5 percent
  high.
\<close>

theorem chartData_heightPercentage:
  "((\<forall>e\<in>set es. \<exists>s t. date e = Some s \<and> parseISO s = Time t) \<longrightarrow>
      (\<exists>bars. chartData parseISO es = Inr bars)) \<and>
   ((\<exists>e\<in>set es. date e = None \<or> (\<exists>s. date e = Some s \<and> parseISO s = InvalidDate)) \<longrightarrow>
      (\<exists>x. chartData parseISO es = Inl x)) \<and>
   (chartData parseISO es = Inr bars \<and> i < length es \<longrightarrow>
      length bars = length es \<and>
      (js_le (production (es ! i)) (Num 0) \<longrightarrow>
         heightPercentage (bars ! i) = Num 4 \<and> isEmpty (bars ! i)) \<and>
      (\<not> js_le (production (es ! i)) (Num 0) \<longrightarrow>
         heightPercentage (bars ! i) =
           js_max (Num 5) (js_mul (js_div (production (es ! i)) (maxValue es)) (Num 100)) \<and>
         \<not> isEmpty (bars ! i)) \<and>
      ((\<exists>x. production (es ! i) = Num x \<and> 0 < x) \<longrightarrow>
         js_le (Num 5) (heightPercentage (bars ! i))))"
proof -
  have 3: "length bars = length es \<and>
      (js_le (production (es ! i)) (Num 0) \<longrightarrow>
         heightPercentage (bars ! i) = Num 4 \<and> isEmpty (bars ! i)) \<and>
      (\<not> js_le (production (es ! i)) (Num 0) \<longrightarrow>
         heightPercentage (bars ! i) =
           js_max (Num 5) (js_mul (js_div (production (es ! i)) (maxValue es)) (Num 100)) \<and>
         \<not> isEmpty (bars ! i)) \<and>
      ((\<exists>x. production (es ! i) = Num x \<and> 0 < x) \<longrightarrow>
         js_le (Num 5) (heightPercentage (bars ! i)))"
    if c: "chartData parseISO es = Inr bars" and i: "i < length es"
  proof -
    from chartLoop_Inr [of parseISO "maxValue es" 0 es bars] c i obtain dayStr fd where
      len: "length bars = length es" and b: "bars ! i = mkBar (maxValue es) i (es ! i) dayStr fd"
      by (auto simp: chartData_def)
    have h: "js_le (Num 5) (heightPercentage (bars ! i))" if "production (es ! i) = Num x" "0 < x" for x
      using height_finite_positive [OF maxValue_above_zero [of es] that(2)] that
      by (simp add: b mkBar_def Let_def)
    from len h show ?thesis by (auto simp: b mkBar_def Let_def)
  qed
  from chartLoop_total [of es parseISO "maxValue es" 0]
       chartLoop_throws [of es parseISO "maxValue es" 0] 3
  show ?thesis by (auto simp: chartData_def)
qed

theorem chartData_heightPercentage_witness:
  "chartData (\<lambda>s. Time 0) [\<lparr>date = Some ''1970-01-01'', production = Num 50, id' = ''a''\<rparr>] =
     Inr [\<lparr>key = Some ''1970-01-01'', index = 0, dayOfMonth = ''1'',
           formattedDate = ''Thu, Jan 1'', bar_production = Num 50,
           heightPercentage = Num 100, isEmpty = False\<rparr>] \<and>
   js_le (Num 5) (Num 100)"
proof -
  let ?es = "[\<lparr>date = Some ''1970-01-01'', production = Num 50, id' = ''a''\<rparr>]"
  have c: "chartData (\<lambda>s. Time 0) ?es =
     Inr [\<lparr>key = Some ''1970-01-01'', index = 0, dayOfMonth = ''1'',
           formattedDate = ''Thu, Jan 1'', bar_production = Num 50,
           heightPercentage = Num 100, isEmpty = False\<rparr>]"
    by code_simp
  from chartData_heightPercentage [of ?es "\<lambda>s. Time 0" _ 0] c
  have "js_le (Num 5) (Num 100)" by simp
  with c show ?thesis by simp
qed

text \<open>An infinite production, which the unvalidated load lets in (a stored \<^verbatim>\<open>1e999\<close>), is
  above 0 and its bar has height \<^verbatim>\<open>NaN\<close>.\<close>

theorem chartData_infinite_production_counterexample:
  "js_gt PInf (Num 0) \<and>
   \<not> isl (chartData (\<lambda>s. Time 0)
            [\<lparr>date = Some ''1970-01-01'', production = PInf, id' = ''a''\<rparr>]) \<and>
   map heightPercentage (projr (chartData (\<lambda>s. Time 0)
            [\<lparr>date = Some ''1970-01-01'', production = PInf, id' = ''a''\<rparr>])) = [NaN] \<and>
   \<not> js_le (Num 5) NaN"
proof -
  let ?es = "[\<lparr>date = Some ''1970-01-01'', production = PInf, id' = ''a''\<rparr>]"
  from chartLoop_total [of ?es "\<lambda>s. Time 0" "maxValue ?es" 0] obtain bars where
    c: "chartData (\<lambda>s. Time 0) ?es = Inr bars" by (auto simp: chartData_def)
  from chartLoop_Inr [of "\<lambda>s. Time 0" "maxValue ?es" 0 ?es bars] c obtain dayStr fd where
    len: "length bars = 1" and b: "bars ! 0 = mkBar (maxValue ?es) 0 (?es ! 0) dayStr fd"
    by (auto simp: chartData_def)
  have mv: "maxValue ?es = PInf" by (simp add: maxValue_def)
  have "heightPercentage (bars ! 0) = NaN" by (simp add: b mv mkBar_def Let_def)
  moreover from len obtain x where "bars = [x]" by (cases bars) auto
  ultimately have "map heightPercentage bars = [NaN]" by simp
  with c show ?thesis by simp
qed

section \<open>Week materialization\<close>

lemma format_Time: "\<exists>s. format_yyyy_MM_dd (Time t) = Inr s"
  by (simp split: prod.splits)

lemma startOfWeek_Time: "\<exists>s. startOfWeek (Time t) = Time s"
  by (simp add: Let_def)

lemma weekEntry_date: "date (fst (weekEntry st c wd)) = Some wd"
  by (simp add: weekEntry_def split: option.splits prod.splits)

lemma weekEntry_production: "production (fst (weekEntry st c wd)) = spec_dayProduction st wd"
  by (simp add: weekEntry_def spec_dayProduction_def split: option.splits prod.splits)

lemma weekLoop_Time:
  "\<exists>es c'. weekLoop st (Time t) ks c = Some (es, c') \<and> length es = length ks \<and>
     (\<forall>k<length ks. \<exists>wd. format_yyyy_MM_dd (addDays (Time t) (int (ks ! k))) = Inr wd \<and>
         date (es ! k) = Some wd \<and> production (es ! k) = spec_dayProduction st wd)"
proof (induction ks arbitrary: c)
  case Nil
  then show ?case by simp
next
  case (Cons i ks)
  obtain wd where wd: "format_yyyy_MM_dd (addDays (Time t) (int i)) = Inr wd"
    using format_Time [of "t + int i * msPerDay"] by auto
  obtain e c1 where e: "weekEntry st c wd = (e, c1)" by (cases "weekEntry st c wd")
  from Cons.IH [of c1] obtain es c2 where es: "weekLoop st (Time t) ks c1 = Some (es, c2)"
    "length es = length ks"
    "\<forall>k<length ks. \<exists>wd. format_yyyy_MM_dd (addDays (Time t) (int (ks ! k))) = Inr wd \<and>
         date (es ! k) = Some wd \<and> production (es ! k) = spec_dayProduction st wd" by blast
  have loop: "weekLoop st (Time t) (i # ks) c = Some (e # es, c2)"
    using wd e es(1) by simp
  have e0: "date e = Some wd" "production e = spec_dayProduction st wd"
    using weekEntry_date [of st c wd] weekEntry_production [of st c wd] e by simp_all
  have "\<forall>k<length (i # ks). \<exists>wd. format_yyyy_MM_dd (addDays (Time t) (int ((i # ks) ! k))) = Inr wd \<and>
         date ((e # es) ! k) = Some wd \<and> production ((e # es) ! k) = spec_dayProduction st wd"
  proof (intro allI impI)
    fix k assume k: "k < length (i # ks)"
    show "\<exists>wd. format_yyyy_MM_dd (addDays (Time t) (int ((i # ks) ! k))) = Inr wd \<and>
         date ((e # es) ! k) = Some wd \<and> production ((e # es) ! k) = spec_dayProduction st wd"
    proof (cases k)
      case 0
      then show ?thesis using wd e0 by simp
    next
      case (Suc k')
      with k have "k' < length ks" by simp
      with es(3) Suc show ?thesis by simp
    qed
  qed
  with loop es(2) show ?case by simp
qed

text \<open>A materialization that does not hit the cache.\<close>

lemma getCurrentWeekEntries_miss:
  assumes d: "selectedDate st = Some (Time t)"
    and ws: "format_yyyy_MM_dd (startOfWeek (Time t)) = Inr weekStartStr"
    and miss: "cached st weekStartStr = None"
  shows "\<exists>es c. getCurrentWeekEntries st =
            (es, st\<lparr>weeklyEntriesCache := Some (weekStartStr, es), nextUUID := c\<rparr>) \<and>
          length es = 7 \<and>
          (\<forall>i<7. \<exists>wd. format_yyyy_MM_dd (addDays (startOfWeek (Time t)) (int i)) = Inr wd \<and>
              date (es ! i) = Some wd \<and> production (es ! i) = spec_dayProduction st wd)"
proof -
  obtain s where s: "startOfWeek (Time t) = Time s" using startOfWeek_Time by blast
  from weekLoop_Time [of st s "[0..<7]" "nextUUID st"] obtain es c where
    es: "weekLoop st (Time s) [0..<7] (nextUUID st) = Some (es, c)" "length es = length [0..<7]"
    "\<forall>k<length [0..<7]. \<exists>wd. format_yyyy_MM_dd (addDays (Time s) (int ([0..<7] ! k))) = Inr wd \<and>
         date (es ! k) = Some wd \<and> production (es ! k) = spec_dayProduction st wd" by blast
  have g: "getCurrentWeekEntries st =
            (es, st\<lparr>weeklyEntriesCache := Some (weekStartStr, es), nextUUID := c\<rparr>)"
    using d ws miss es(1) s by (simp add: getCurrentWeekEntries_def Let_def del: startOfWeek.simps)
  have "\<forall>i<7. \<exists>wd. format_yyyy_MM_dd (addDays (Time s) (int i)) = Inr wd \<and>
              date (es ! i) = Some wd \<and> production (es ! i) = spec_dayProduction st wd"
  proof (intro allI impI)
    fix i :: nat assume i: "i < 7"
    then have "[0..<7] ! i = i" by (metis add_0 nth_upt)
    with es(3) i show "\<exists>wd. format_yyyy_MM_dd (addDays (Time s) (int i)) = Inr wd \<and>
              date (es ! i) = Some wd \<and> production (es ! i) = spec_dayProduction st wd"
      by (metis diff_zero length_upt)
  qed
  moreover have "length es = 7" using es(2) by simp
  ultimately show ?thesis unfolding s using g by blast
qed

lemma getCurrentWeekEntries_hit:
  assumes "selectedDate st = Some (Time t)"
    and "format_yyyy_MM_dd (startOfWeek (Time t)) = Inr weekStartStr"
    and "cached st weekStartStr = Some es"
  shows "getCurrentWeekEntries st = (es, st)"
  using assms by (simp add: getCurrentWeekEntries_def Let_def del: startOfWeek.simps)

lemma getCurrentWeekEntries_idem:
  "getCurrentWeekEntries (snd (getCurrentWeekEntries st)) = getCurrentWeekEntries st"
proof (cases "selectedDate st")
  case None
  then show ?thesis by (simp add: getCurrentWeekEntries_def)
next
  case (Some d)
  show ?thesis
  proof (cases "format_yyyy_MM_dd (startOfWeek d)")
    case (Inl x)
    with Some show ?thesis by (simp add: getCurrentWeekEntries_def Let_def)
  next
    case (Inr ws)
    then obtain t where t: "d = Time t" by (cases d) auto
    show ?thesis
    proof (cases "cached st ws")
      case (Some es)
      with \<open>selectedDate st = Some d\<close> Inr t have "getCurrentWeekEntries st = (es, st)"
        using getCurrentWeekEntries_hit by blast
      then show ?thesis by simp
    next
      case None
      from getCurrentWeekEntries_miss [OF _ _ None, of t] \<open>selectedDate st = Some d\<close> Inr t
      obtain es c where g: "getCurrentWeekEntries st =
            (es, st\<lparr>weeklyEntriesCache := Some (ws, es), nextUUID := c\<rparr>)" by blast
      let ?st' = "st\<lparr>weeklyEntriesCache := Some (ws, es), nextUUID := c\<rparr>"
      have "cached ?st' ws = Some es" by (simp add: cached_def)
      moreover have "selectedDate ?st' = Some (Time t)"
        using \<open>selectedDate st = Some d\<close> t by simp
      ultimately have "getCurrentWeekEntries ?st' = (es, ?st')"
        using getCurrentWeekEntries_hit Inr t by blast
      with g show ?thesis by simp
    qed
  qed
qed

text \<open>
  C10. When no date is selected yet, or \<^verbatim>\<open>format\<close> throws while the week is
  materialized (the selected date is invalid), \<^verbatim>\<open>getCurrentWeekEntries\<close> returns the empty
  sequence and leaves the state as it is; the weekly statistics of that result are all 0
  with no best day, the chart's maximum is the floor 10 and it has no bar.
\<close>

theorem getCurrentWeekEntries_not_established:
  assumes "selectedDate st = None \<or>
           (\<exists>d x. selectedDate st = Some d \<and> format_yyyy_MM_dd (startOfWeek d) = Inl x)"
  shows "getCurrentWeekEntries st = ([], st) \<and>
         weeklyStats (fst (getCurrentWeekEntries st)) =
           \<lparr>weeklyTotal = Num 0, dailyAverage = Num 0, maxProduction = Num 0,
            maxProductionDay = None\<rparr> \<and>
         maxValue (fst (getCurrentWeekEntries st)) = Num 10 \<and>
         chartData parseISO (fst (getCurrentWeekEntries st)) = Inr []"
proof -
  from assms have "getCurrentWeekEntries st = ([], st)"
    by (auto simp: getCurrentWeekEntries_def Let_def)
  then show ?thesis by (simp add: weeklyStats_def maxValue_def chartData_def)
qed

theorem getCurrentWeekEntries_not_established_witness:
  "selectedDate initial = None \<and> getCurrentWeekEntries initial = ([], initial) \<and>
   format_yyyy_MM_dd (startOfWeek InvalidDate) = Inl RangeError \<and>
   getCurrentWeekEntries (initial\<lparr>selectedDate := Some InvalidDate\<rparr>) =
     ([], initial\<lparr>selectedDate := Some InvalidDate\<rparr>)"
  using getCurrentWeekEntries_not_established [of initial]
        getCurrentWeekEntries_not_established [of "initial\<lparr>selectedDate := Some InvalidDate\<rparr>"]
  by (simp add: initial_def)


section \<open>Loading, the map and upserts\<close>

lemma processedObjects_length: "length (fst (processedObjects s2n xs c)) = length xs"
  by (induction xs arbitrary: c) (simp_all add: split_beta)

lemma processedObjects_date: "map date (fst (processedObjects s2n xs c)) = map raw_date xs"
  by (induction xs arbitrary: c) (simp_all add: split_beta)

lemma processedObjects_production:
  "map production (fst (processedObjects s2n xs c)) =
     map (\<lambda>r. Number_of s2n (raw_production r)) xs"
  by (induction xs arbitrary: c) (simp_all add: split_beta)

lemma processedObjects_append:
  "processedObjects s2n (xs @ ys) c =
     (fst (processedObjects s2n xs c) @
        fst (processedObjects s2n ys (snd (processedObjects s2n xs c))),
      snd (processedObjects s2n ys (snd (processedObjects s2n xs c))))"
  by (induction xs arbitrary: c) (simp_all add: split_beta)

text \<open>A chunk of objects is processed; a chunk with a \<^verbatim>\<open>null\<close> element throws.\<close>

lemma processedChunk_objects:
  "processedChunk s2n (map Some os) c = Some (processedObjects s2n os c)"
  by (induction os arbitrary: c) (simp_all add: split_beta)


lemma no_null_objects: "None \<notin> set ents \<Longrightarrow> \<exists>os. ents = map Some os"
proof (induction ents)
  case Nil
  then show ?case by simp
next
  case (Cons x xs)
  then obtain os where "xs = map Some os" by auto
  moreover from Cons.prems obtain y where "x = Some y" by (cases x) auto
  ultimately have "x # xs = map Some (y # os)" by simp
  then show ?case by (rule exI)
qed

lemma setAll_append: "setAll m (xs @ ys) = setAll (setAll m xs) ys"
  by (simp add: setAll_def)

text \<open>The load of a batch of objects in closed form: the map receives every processed
  element, the listing the elements of the last chunk.\<close>

lemma processChunk_closed:
  assumes "0 < cs"
  shows "processChunk s2n st (map Some os) start cs =
           Loaded (st\<lparr>entriesMapRef :=
                      setAll (entriesMapRef st)
                        (fst (processedObjects s2n (drop start os) (nextUUID st))),
                    nextUUID := snd (processedObjects s2n (drop start os) (nextUUID st)),
                    entries := entries st @
                      drop (cs * ((length os - start - 1) div cs))
                        (fst (processedObjects s2n (drop start os) (nextUUID st))),
                    isLoading := False, isInitialized := True\<rparr>)"
proof (induction "length os - start" arbitrary: st start rule: less_induct)
  case less
  show ?case
  proof (cases "start + cs < length os")
    case False
    then have e: "min (start + cs) (length os) = length os" by simp
    have ch: "take (length os - start) (drop start (map Some os)) = map Some (drop start os)"
      by (simp add: drop_map)
    have k: "(length os - Suc start) div cs = 0" using False assms by simp
    show ?thesis
      by (subst processChunk.simps) (simp add: e ch k Let_def processedChunk_objects)
  next
    case True
    then have e: "min (start + cs) (length os) = start + cs" by simp
    have ch: "take cs (drop start (map Some os)) = map Some (take cs (drop start os))"
      by (simp add: drop_map take_map)
    let ?pc = "processedObjects s2n (take cs (drop start os)) (nextUUID st)"
    let ?st1 = "st\<lparr>entriesMapRef := setAll (entriesMapRef st) (fst ?pc), nextUUID := snd ?pc\<rparr>"
    have step: "processChunk s2n st (map Some os) start cs =
                  processChunk s2n ?st1 (map Some os) (start + cs) cs"
      using True assms
      by (subst processChunk.simps) (simp add: e ch Let_def processedChunk_objects)
    have "length os - (start + cs) < length os - start" using True assms by simp
    note ih = less [OF this, of ?st1]
    have split: "drop start os = take cs (drop start os) @ drop (start + cs) os"
      by (metis add.commute append_take_drop_id drop_drop)
    let ?rest = "processedObjects s2n (drop (start + cs) os) (snd ?pc)"
    have whole: "processedObjects s2n (drop start os) (nextUUID st) =
                   (fst ?pc @ fst ?rest, snd ?rest)"
      by (subst split) (simp add: processedObjects_append)
    have len: "length (fst ?pc) = cs"
      using True by (simp add: processedObjects_length)
    have "cs \<le> length os - start - 1" using True by simp
    then have "(length os - start - 1) div cs = Suc ((length os - start - 1 - cs) div cs)"
      using assms by (simp add: le_div_geq)
    moreover have "length os - start - 1 - cs = length os - (start + cs) - 1" by simp
    ultimately have k: "cs * ((length os - start - 1) div cs) =
                          cs + cs * ((length os - (start + cs) - 1) div cs)" by simp
    show ?thesis
      unfolding step ih k by (simp add: whole setAll_append len)
  qed
qed


lemma findIndex_None: "findIndex P xs = None \<longleftrightarrow> (\<forall>x\<in>set xs. \<not> P x)"
  by (induction xs) auto

lemma findIndex_Some:
  "findIndex P xs = Some i \<Longrightarrow> i < length xs \<and> P (xs ! i) \<and> (\<forall>j<i. \<not> P (xs ! j))"
proof (induction xs arbitrary: i)
  case Nil
  then show ?case by simp
next
  case (Cons x xs)
  show ?case
  proof (cases "P x")
    case True
    with Cons.prems show ?thesis by simp
  next
    case False
    with Cons.prems obtain i' where i': "findIndex P xs = Some i'" "i = Suc i'" by auto
    from Cons.IH [OF i'(1)] False i'(2) show ?thesis by (auto simp: less_Suc_eq_0_disj)
  qed
qed

lemma setAll_snoc: "setAll m (es @ [e]) = (setAll m es)(date e \<mapsto> e)"
  by (simp add: setAll_def)

lemma setAll_Nil: "setAll m [] = m"
  by (simp add: setAll_def)

lemma setAll_lookup:
  "setAll m es k =
     (if \<exists>e\<in>set es. date e = k then Some (last (filter (\<lambda>e. date e = k) es)) else m k)"
proof (induction es rule: rev_induct)
  case Nil
  then show ?case by (simp add: setAll_Nil)
next
  case (snoc e es)
  then show ?case by (auto simp: setAll_snoc)
qed

lemma setAll_dom: "dom (setAll m es) = dom m \<union> date ` set es"
proof (induction es rule: rev_induct)
  case Nil
  then show ?case by (simp add: setAll_Nil)
next
  case (snoc x xs)
  have "dom (setAll m (xs @ [x])) = insert (date x) (dom (setAll m xs))"
    by (simp add: setAll_snoc)
  also have "\<dots> = insert (date x) (dom m \<union> date ` set xs)" by (simp only: snoc.IH)
  also have "\<dots> = dom m \<union> date ` set (xs @ [x])" by auto
  finally show ?case .
qed

lemma setAll_value: "setAll m es k = Some e \<Longrightarrow> e \<in> set es \<or> m k = Some e"
proof (induction es rule: rev_induct)
  case Nil
  then show ?case by (simp add: setAll_Nil)
next
  case (snoc x xs)
  then show ?case by (auto simp: setAll_snoc split: if_splits)
qed

lemma setAll_distinct:
  assumes "distinct (map date es)" and "e \<in> set es"
  shows "setAll m es (date e) = Some e"
proof -
  from assms have "filter (\<lambda>x. date x = date e) es = [e]"
  proof (induction es)
    case Nil
    then show ?case by simp
  next
    case (Cons x xs)
    show ?case
    proof (cases "x = e")
      case True
      with Cons.prems have "\<forall>y\<in>set xs. date y \<noteq> date e" by (auto simp: image_iff)
      then have "filter (\<lambda>x. date x = date e) xs = []" by (simp add: filter_empty_conv)
      with True show ?thesis by simp
    next
      case False
      with Cons.prems have "e \<in> set xs" "distinct (map date xs)" "date x \<noteq> date e"
        by (auto simp: image_iff)
      with Cons.IH show ?thesis by simp
    qed
  qed
  with assms(2) show ?thesis by (auto simp: setAll_lookup)
qed


lemma in_range_Num: "in_range p \<longleftrightarrow> (\<exists>r. p = Num r \<and> 0 \<le> r \<and> r \<le> 100)"
  by (cases p) (auto simp: in_range_def)


lemma accepted_in_range: "\<not> js_lt p (Num 0) \<Longrightarrow> \<not> js_gt p (Num 100) \<Longrightarrow> \<not> isNaN p \<Longrightarrow> in_range p"
  by (cases p) (auto simp: in_range_def)

lemma updateEntry_rejected:
  "js_lt p (Num 0) \<or> js_gt p (Num 100) \<Longrightarrow> updateEntry st d p = st"
  by (auto simp: updateEntry_def)

lemma updateEntry_cache:
  "\<not> js_lt p (Num 0) \<Longrightarrow> \<not> js_gt p (Num 100) \<Longrightarrow> weeklyEntriesCache (updateEntry st d p) = None"
  by (simp add: updateEntry_def Let_def)

lemma setEntriesUpdate_other:
  "pendingUpdatesRef (setEntriesUpdate st d p) = pendingUpdatesRef st"
  "selectedDate (setEntriesUpdate st d p) = selectedDate st"
  by (simp_all add: setEntriesUpdate_def Let_def split: option.splits)

lemma updateEntry_pending:
  "\<not> js_lt p (Num 0) \<Longrightarrow> \<not> js_gt p (Num 100) \<Longrightarrow>
   pendingUpdatesRef (updateEntry st d p) = (pendingUpdatesRef st)(d := None)"
  by (simp add: updateEntry_def Let_def setEntriesUpdate_other)

lemma updateEntry_selectedDate: "selectedDate (updateEntry st d p) = selectedDate st"
  by (simp add: updateEntry_def Let_def setEntriesUpdate_other)

lemma updateEntry_found:
  assumes "\<not> js_lt p (Num 0)" "\<not> js_gt p (Num 100)"
    and "findIndex (\<lambda>e. date e = Some d) (entries st) = Some i"
  shows "entries (updateEntry st d p) = (entries st)[i := (entries st ! i)\<lparr>production := p\<rparr>]"
    and "entriesMapRef (updateEntry st d p) =
           (entriesMapRef st)(Some d \<mapsto> (entries st ! i)\<lparr>production := p\<rparr>)"
    and "nextUUID (updateEntry st d p) = nextUUID st"
proof -
  from findIndex_Some [OF assms(3)] have i: "i < length (entries st)" by simp
  show "entries (updateEntry st d p) = (entries st)[i := (entries st ! i)\<lparr>production := p\<rparr>]"
    using assms by (simp add: updateEntry_def setEntriesUpdate_def Let_def)
  show "entriesMapRef (updateEntry st d p) =
           (entriesMapRef st)(Some d \<mapsto> (entries st ! i)\<lparr>production := p\<rparr>)"
    using assms i by (simp add: updateEntry_def setEntriesUpdate_def Let_def)
  show "nextUUID (updateEntry st d p) = nextUUID st"
    using assms by (simp add: updateEntry_def setEntriesUpdate_def Let_def)
qed

lemma updateEntry_new:
  assumes "\<not> js_lt p (Num 0)" "\<not> js_gt p (Num 100)"
    and "findIndex (\<lambda>e. date e = Some d) (entries st) = None"
  shows "entries (updateEntry st d p) =
           entries st @ [\<lparr>date = Some d, production = p, id' = randomUUID (nextUUID st)\<rparr>]"
    and "entriesMapRef (updateEntry st d p) =
           (entriesMapRef st)(Some d \<mapsto>
              \<lparr>date = Some d, production = p, id' = randomUUID (nextUUID st)\<rparr>)"
    and "nextUUID (updateEntry st d p) = Suc (nextUUID st)"
  using assms by (simp_all add: updateEntry_def setEntriesUpdate_def Let_def)

text \<open>In any state, an accepted \<^verbatim>\<open>updateEntry\<close> leaves the value under its date.\<close>

lemma updateEntry_lookup:
  assumes "\<not> js_lt p (Num 0)" "\<not> js_gt p (Num 100)"
  shows "\<exists>e. entriesMapRef (updateEntry st d p) (Some d) = Some e \<and> production e = p \<and>
             date e = Some d"
proof (cases "findIndex (\<lambda>e. date e = Some d) (entries st)")
  case None
  from updateEntry_new(2) [OF assms None] show ?thesis by simp
next
  case (Some i)
  from findIndex_Some [OF Some] have "date (entries st ! i) = Some d" by simp
  with updateEntry_found(2) [OF assms Some] show ?thesis by simp
qed

text \<open>A materialization after an accepted \<^verbatim>\<open>updateEntry\<close> shows the new value.\<close>

lemma week_after_updateEntry:
  assumes acc: "\<not> js_lt p (Num 0)" "\<not> js_gt p (Num 100)"
    and sel: "selectedDate st = Some (Time t)"
    and i: "i < 7"
    and day: "format_yyyy_MM_dd (addDays (startOfWeek (Time t)) (int i)) = Inr d"
  shows "length (fst (getCurrentWeekEntries (updateEntry st d p))) = 7 \<and>
         date (fst (getCurrentWeekEntries (updateEntry st d p)) ! i) = Some d \<and>
         production (fst (getCurrentWeekEntries (updateEntry st d p)) ! i) = p"
proof -
  let ?st' = "updateEntry st d p"
  obtain ws where ws: "format_yyyy_MM_dd (startOfWeek (Time t)) = Inr ws"
    using startOfWeek_Time [of t] format_Time by metis
  have sel': "selectedDate ?st' = Some (Time t)" using sel by (simp add: updateEntry_selectedDate)
  have miss: "cached ?st' ws = None" using acc by (simp add: cached_def updateEntry_cache)
  from getCurrentWeekEntries_miss [OF sel' ws miss] obtain es c where
    g: "getCurrentWeekEntries ?st' =
          (es, ?st'\<lparr>weeklyEntriesCache := Some (ws, es), nextUUID := c\<rparr>)"
    and len: "length es = 7"
    and days: "\<forall>i<7. \<exists>wd. format_yyyy_MM_dd (addDays (startOfWeek (Time t)) (int i)) = Inr wd \<and>
              date (es ! i) = Some wd \<and> production (es ! i) = spec_dayProduction ?st' wd"
    by blast
  from days i day have e: "date (es ! i) = Some d"
    "production (es ! i) = spec_dayProduction ?st' d" by auto
  from updateEntry_lookup [OF acc, of st d] obtain e' where
    "entriesMapRef ?st' (Some d) = Some e'" "production e' = p" by blast
  then have "spec_dayProduction ?st' d = p"
    using acc by (simp add: spec_dayProduction_def updateEntry_pending)
  with g len e show ?thesis by simp
qed

lemma week_1970:
  "format_yyyy_MM_dd (startOfWeek (Time 0)) = Inr ''1969-12-28''"
  "format_yyyy_MM_dd (addDays (startOfWeek (Time 0)) (int 4)) = Inr ''1970-01-01''"
  by code_simp code_simp

text \<open>A load, however it ends, does not touch the week cache, the selected date, the
  pending values or what the save effect uses.\<close>

lemma processChunk_frame:
  "(case processChunk s2n st ents start cs of
      Loaded st' \<Rightarrow> weeklyEntriesCache st' = weeklyEntriesCache st \<and>
                    selectedDate st' = selectedDate st \<and>
                    pendingUpdatesRef st' = pendingUpdatesRef st \<and>
                    timers st' = timers st \<and> saveTimeoutRef st' = saveTimeoutRef st \<and>
                    saveCleanup st' = saveCleanup st \<and> nextTimer st' = nextTimer st \<and>
                    now st' = now st \<and> writes st' = writes st
    | Thrown st' \<Rightarrow> weeklyEntriesCache st' = weeklyEntriesCache st \<and>
                    selectedDate st' = selectedDate st \<and>
                    pendingUpdatesRef st' = pendingUpdatesRef st \<and>
                    timers st' = timers st \<and> saveTimeoutRef st' = saveTimeoutRef st \<and>
                    saveCleanup st' = saveCleanup st \<and> nextTimer st' = nextTimer st \<and>
                    now st' = now st \<and> writes st' = writes st
    | Diverges \<Rightarrow> True)"
proof (induction s2n st ents start cs rule: processChunk.induct)
  case (1 s2n st ents startIndex chunkSize)
  let ?endIndex = "min (startIndex + chunkSize) (length ents)"
  let ?chunk = "take (?endIndex - startIndex) (drop startIndex ents)"
  show ?case
  proof (cases "processedChunk s2n ?chunk (nextUUID st)")
    case None
    then show ?thesis by (subst processChunk.simps) (simp add: Let_def)
  next
    case (Some pc)
    let ?st1 = "st\<lparr>entriesMapRef := setAll (entriesMapRef st) (fst pc), nextUUID := snd pc\<rparr>"
    show ?thesis
    proof (cases "?endIndex < length ents \<and> chunkSize \<noteq> 0")
      case True
      then have step: "processChunk s2n st ents startIndex chunkSize =
                         processChunk s2n ?st1 ents ?endIndex chunkSize"
        using Some by (subst processChunk.simps) (simp add: Let_def)
      from "1.IH" [OF refl refl Some refl _ _] True
      have "case processChunk s2n ?st1 ents ?endIndex chunkSize of
              Loaded st' \<Rightarrow> weeklyEntriesCache st' = weeklyEntriesCache ?st1 \<and>
                    selectedDate st' = selectedDate ?st1 \<and>
                    pendingUpdatesRef st' = pendingUpdatesRef ?st1 \<and>
                    timers st' = timers ?st1 \<and> saveTimeoutRef st' = saveTimeoutRef ?st1 \<and>
                    saveCleanup st' = saveCleanup ?st1 \<and> nextTimer st' = nextTimer ?st1 \<and>
                    now st' = now ?st1 \<and> writes st' = writes ?st1
            | Thrown st' \<Rightarrow> weeklyEntriesCache st' = weeklyEntriesCache ?st1 \<and>
                    selectedDate st' = selectedDate ?st1 \<and>
                    pendingUpdatesRef st' = pendingUpdatesRef ?st1 \<and>
                    timers st' = timers ?st1 \<and> saveTimeoutRef st' = saveTimeoutRef ?st1 \<and>
                    saveCleanup st' = saveCleanup ?st1 \<and> nextTimer st' = nextTimer ?st1 \<and>
                    now st' = now ?st1 \<and> writes st' = writes ?st1
            | Diverges \<Rightarrow> True" by simp
      then show ?thesis unfolding step by (simp split: load_result.splits)
    next
      case False
      then show ?thesis using Some
        by (subst processChunk.simps) (auto simp: Let_def)
    qed
  qed
qed

lemma loadEntries_keeps:
  assumes "loadEntries s2n st saved = Loaded st'"
  shows "weeklyEntriesCache st' = weeklyEntriesCache st \<and> selectedDate st' = selectedDate st \<and>
         pendingUpdatesRef st' = pendingUpdatesRef st"
proof (cases saved)
  case None
  with assms show ?thesis by (auto simp: loadEntries_def)
next
  case (Some ents)
  with assms processChunk_frame [where s2n = s2n and st = st and ents = ents and start = 0
      and cs = 50] show ?thesis
    by (simp add: loadEntries_def)
qed

lemma loadEntries_one_chunk:
  assumes "length os \<le> 50"
  shows "loadEntries s2n st (Some (map Some os)) =
           Loaded (st\<lparr>entriesMapRef :=
                      setAll (entriesMapRef st) (fst (processedObjects s2n os (nextUUID st))),
                    nextUUID := snd (processedObjects s2n os (nextUUID st)),
                    entries := entries st @ fst (processedObjects s2n os (nextUUID st)),
                    isLoading := False, isInitialized := True\<rparr>)"
proof -
  from assms have "(length os - 0 - 1) div 50 = 0" by simp
  with processChunk_closed [of 50 s2n st os 0] show ?thesis by (simp add: loadEntries_def)
qed

section \<open>The store invariant\<close>

lemma store_inv_cong:
  "entries st' = entries st \<Longrightarrow> entriesMapRef st' = entriesMapRef st \<Longrightarrow>
   pendingUpdatesRef st' = pendingUpdatesRef st \<Longrightarrow> store_inv st' = store_inv st"
  by (simp add: store_inv_def)

lemma store_inv_parts:
  assumes "store_inv st"
  shows "\<forall>e\<in>set (entries st). in_range (production e)"
    and "distinct (map date (entries st))"
    and "\<forall>k e. entriesMapRef st k = Some e \<longrightarrow> in_range (production e)"
    and "\<forall>e\<in>set (entries st). entriesMapRef st (date e) = Some e"
    and "pendingUpdatesRef st = Map.empty"
  using assms by (simp_all add: store_inv_def)

lemma distinct_dates_eq:
  assumes "distinct (map date es)" "x \<in> set es" "y \<in> set es" "date x = date y"
  shows "x = y"
  using assms by (meson distinct_map inj_onD)

lemma store_inv_updateEntry:
  assumes inv: "store_inv st" and n: "\<not> isNaN p"
  shows "store_inv (updateEntry st d p)"
proof (cases "js_lt p (Num 0) \<or> js_gt p (Num 100)")
  case True
  then show ?thesis using inv by (simp add: updateEntry_rejected)
next
  case False
  then have acc: "\<not> js_lt p (Num 0)" "\<not> js_gt p (Num 100)" by simp_all
  with n have r: "in_range p" by (simp add: accepted_in_range)
  note i = store_inv_parts [OF inv]
  have pe: "pendingUpdatesRef (updateEntry st d p) = Map.empty"
    using updateEntry_pending [OF acc, of st d] i(5) by simp
  show ?thesis
  proof (cases "findIndex (\<lambda>e. date e = Some d) (entries st)")
    case None
    then have nd: "\<forall>e\<in>set (entries st). date e \<noteq> Some d" by (simp add: findIndex_None)
    let ?new = "\<lparr>date = Some d, production = p, id' = randomUUID (nextUUID st)\<rparr>"
    from updateEntry_new [OF acc None] have
      e: "entries (updateEntry st d p) = entries st @ [?new]" and
      m: "entriesMapRef (updateEntry st d p) = (entriesMapRef st)(Some d \<mapsto> ?new)" by simp_all
    have 1: "\<forall>e\<in>set (entries (updateEntry st d p)). in_range (production e)"
      using i(1) r unfolding e by auto
    have 2: "distinct (map date (entries (updateEntry st d p)))"
      using i(2) nd unfolding e by auto
    have 3: "\<forall>k x. entriesMapRef (updateEntry st d p) k = Some x \<longrightarrow> in_range (production x)"
      using i(3) r unfolding m by auto
    have 4: "\<forall>x\<in>set (entries (updateEntry st d p)). entriesMapRef (updateEntry st d p) (date x) = Some x"
      using i(4) nd unfolding e m by auto
    from 1 2 3 4 pe show ?thesis unfolding store_inv_def by blast
  next
    case (Some k)
    from findIndex_Some [OF Some] have k: "k < length (entries st)"
      "date (entries st ! k) = Some d" by simp_all
    let ?e' = "(entries st ! k)\<lparr>production := p\<rparr>"
    have md: "map date ((entries st)[k := ?e']) = map date (entries st)"
      using k by (simp add: map_update list_update_same_conv)
    have sub: "set ((entries st)[k := ?e']) \<subseteq> insert ?e' (set (entries st))"
      by (rule set_update_subset_insert)
    from updateEntry_found [OF acc Some] have
      e: "entries (updateEntry st d p) = (entries st)[k := ?e']" and
      m: "entriesMapRef (updateEntry st d p) = (entriesMapRef st)(Some d \<mapsto> ?e')" by simp_all
    have 1: "\<forall>e\<in>set (entries (updateEntry st d p)). in_range (production e)"
      using i(1) r sub unfolding e by auto
    have 2: "distinct (map date (entries (updateEntry st d p)))"
      using i(2) unfolding e md by simp
    have 3: "\<forall>k x. entriesMapRef (updateEntry st d p) k = Some x \<longrightarrow> in_range (production x)"
      using i(3) r unfolding m by auto
    have mem: "?e' \<in> set ((entries st)[k := ?e'])" using k(1) by (rule set_update_memI)
    have 4: "\<forall>x\<in>set (entries (updateEntry st d p)). entriesMapRef (updateEntry st d p) (date x) = Some x"
    proof
      fix x assume x: "x \<in> set (entries (updateEntry st d p))"
      show "entriesMapRef (updateEntry st d p) (date x) = Some x"
      proof (cases "date x = Some d")
        case True
        have d2: "distinct (map date ((entries st)[k := ?e']))" using 2 unfolding e .
        have x2: "x \<in> set ((entries st)[k := ?e'])" using x unfolding e .
        have "date x = date ?e'" using True k(2) by simp
        with d2 x2 mem have "x = ?e'" by (rule distinct_dates_eq)
        with True show ?thesis unfolding m by simp
      next
        case False
        have "x \<noteq> ?e'" using False k(2) by auto
        with x sub have "x \<in> set (entries st)" unfolding e by auto
        with i(4) False show ?thesis unfolding m by simp
      qed
    qed
    from 1 2 3 4 pe show ?thesis unfolding store_inv_def by blast
  qed
qed

lemma store_inv_handleEditBlur: "store_inv st \<Longrightarrow> store_inv (handleEditBlur st d v)"
  by (simp add: handleEditBlur_def store_inv_updateEntry)

lemma store_inv_rebuild:
  assumes "\<forall>e\<in>set es. in_range (production e)" and "distinct (map date es)"
    and "entries st' = es" and "entriesMapRef st' = setAll Map.empty es"
    and "pendingUpdatesRef st' = Map.empty"
  shows "store_inv st'"
proof -
  have "\<forall>k e. setAll Map.empty es k = Some e \<longrightarrow> in_range (production e)"
    using assms(1) setAll_value [of Map.empty es] by fastforce
  moreover have "\<forall>e\<in>set es. setAll Map.empty es (date e) = Some e"
    using assms(2) by (simp add: setAll_distinct)
  ultimately show ?thesis using assms by (simp add: store_inv_def)
qed

lemma store_inv_updateEntriesState:
  assumes "\<forall>e\<in>set es. in_range (production e)" and "distinct (map date es)"
    and "pendingUpdatesRef st = Map.empty"
  shows "store_inv (updateEntriesState st es)"
  using assms(1,2) by (rule store_inv_rebuild) (simp_all add: updateEntriesState_def assms(3))

lemma in_range_productionValue: "in_range x \<Longrightarrow> (if truthy x then x else Num 0) = x"
  by (auto simp: in_range_Num)

lemma store_inv_onSubmit:
  assumes inv: "store_inv st" and r: "in_range v"
  shows "store_inv (onSubmit st today v)"
proof -
  define pv where "pv = (if truthy v then v else Num 0)"
  have rp: "in_range pv" using r by (simp add: pv_def in_range_productionValue)
  note i = store_inv_parts [OF inv]
  have main: "store_inv ((case entriesMapRef st (Some fd) of
                Some existingEntry \<Rightarrow>
                  updateEntriesState st
                    (map (\<lambda>entry. if date entry = Some fd
                                   then entry\<lparr>production := pv\<rparr> else entry) (entries st))
              | None \<Rightarrow>
                  updateEntriesState (st\<lparr>nextUUID := Suc (nextUUID st)\<rparr>)
                    (entries st @
                       [\<lparr>date = Some fd, production = pv, id' = randomUUID (nextUUID st)\<rparr>]))
              \<lparr>isLoading := False\<rparr>)" for fd
  proof (cases "entriesMapRef st (Some fd)")
    case None
    with i(4) have nd: "\<forall>e\<in>set (entries st). date e \<noteq> Some fd" by force
    have "store_inv (updateEntriesState (st\<lparr>nextUUID := Suc (nextUUID st)\<rparr>)
                    (entries st @
                       [\<lparr>date = Some fd, production = pv, id' = randomUUID (nextUUID st)\<rparr>]))"
      using i(1,2,5) rp nd by (intro store_inv_updateEntriesState) auto
    with None show ?thesis by (simp add: store_inv_def)
  next
    case (Some a)
    let ?f = "\<lambda>entry. if date entry = Some fd then entry\<lparr>production := pv\<rparr> else entry"
    have md: "map date (map ?f (entries st)) = map date (entries st)" by simp
    have "store_inv (updateEntriesState st (map ?f (entries st)))"
    proof (rule store_inv_updateEntriesState)
      show "\<forall>e\<in>set (map ?f (entries st)). in_range (production e)"
        using i(1) rp by auto
      show "distinct (map date (map ?f (entries st)))"
        using i(2) unfolding md .
      show "pendingUpdatesRef st = Map.empty" by (rule i(5))
    qed
    with Some show ?thesis by (simp add: store_inv_def)
  qed
  show ?thesis
    unfolding onSubmit_def Let_def pv_def [symmetric]
    using inv main by (auto simp: store_inv_def split: option.splits sum.splits)
qed

lemma formSchema_in_range: "formSchema v = Some v' \<Longrightarrow> v' = v \<and> in_range v"
  by (cases v) (auto simp: formSchema_def in_range_def split: if_splits)

lemma store_inv_handleSubmit: "store_inv st \<Longrightarrow> store_inv (handleSubmit st today v)"
proof (cases "formSchema v")
  case None
  then show "store_inv st \<Longrightarrow> store_inv (handleSubmit st today v)" by (simp add: handleSubmit_def)
next
  case (Some v')
  then have "in_range v'" using formSchema_in_range by blast
  with Some show "store_inv st \<Longrightarrow> store_inv (handleSubmit st today v)"
    by (simp add: handleSubmit_def store_inv_onSubmit)
qed

lemma getCurrentWeekEntries_store:
  "entries (snd (getCurrentWeekEntries st)) = entries st \<and>
   entriesMapRef (snd (getCurrentWeekEntries st)) = entriesMapRef st \<and>
   pendingUpdatesRef (snd (getCurrentWeekEntries st)) = pendingUpdatesRef st \<and>
   selectedDate (snd (getCurrentWeekEntries st)) = selectedDate st"
proof (cases "selectedDate st")
  case None
  then show ?thesis by (simp add: getCurrentWeekEntries_def)
next
  case (Some d)
  show ?thesis
  proof (cases "format_yyyy_MM_dd (startOfWeek d)")
    case (Inl x)
    with Some show ?thesis by (simp add: getCurrentWeekEntries_def Let_def)
  next
    case (Inr ws)
    then obtain t where t: "d = Time t" by (cases d) auto
    show ?thesis
    proof (cases "cached st ws")
      case (Some es)
      with \<open>selectedDate st = Some d\<close> Inr t have "getCurrentWeekEntries st = (es, st)"
        using getCurrentWeekEntries_hit by blast
      then show ?thesis by simp
    next
      case None
      from getCurrentWeekEntries_miss [OF _ _ None, of t] \<open>selectedDate st = Some d\<close> Inr t
      obtain es c where "getCurrentWeekEntries st =
            (es, st\<lparr>weeklyEntriesCache := Some (ws, es), nextUUID := c\<rparr>)" by blast
      then show ?thesis by simp
    qed
  qed
qed

lemma clearTimeout_store [simp]:
  "entries (clearTimeout i st) = entries st"
  "entriesMapRef (clearTimeout i st) = entriesMapRef st"
  "pendingUpdatesRef (clearTimeout i st) = pendingUpdatesRef st"
  "isLoading (clearTimeout i st) = isLoading st"
  "isInitialized (clearTimeout i st) = isInitialized st"
  "initialRenderRef (clearTimeout i st) = initialRenderRef st"
  "saveTimeoutRef (clearTimeout i st) = saveTimeoutRef st"
  "nextTimer (clearTimeout i st) = nextTimer st"
  "now (clearTimeout i st) = now st"
  "writes (clearTimeout i st) = writes st"
  by (simp_all add: clearTimeout_def)

lemma saveEffectCleanup_store [simp]:
  "entries (saveEffectCleanup st) = entries st"
  "entriesMapRef (saveEffectCleanup st) = entriesMapRef st"
  "pendingUpdatesRef (saveEffectCleanup st) = pendingUpdatesRef st"
  "isLoading (saveEffectCleanup st) = isLoading st"
  "isInitialized (saveEffectCleanup st) = isInitialized st"
  "initialRenderRef (saveEffectCleanup st) = initialRenderRef st"
  "saveTimeoutRef (saveEffectCleanup st) = saveTimeoutRef st"
  "nextTimer (saveEffectCleanup st) = nextTimer st"
  "now (saveEffectCleanup st) = now st"
  "writes (saveEffectCleanup st) = writes st"
  by (simp_all add: saveEffectCleanup_def split: option.splits)

lemma saveEffect_store:
  "entries (saveEffect st) = entries st \<and> pendingUpdatesRef (saveEffect st) = pendingUpdatesRef st \<and>
   (entriesMapRef (saveEffect st) = entriesMapRef st \<or>
    entriesMapRef (saveEffect st) = setAll Map.empty (entries st))"
proof -
  define st0 where "st0 = (if saveCleanup st then saveEffectCleanup st else st)"
  have s0: "entries st0 = entries st" "entriesMapRef st0 = entriesMapRef st"
    "pendingUpdatesRef st0 = pendingUpdatesRef st"
    by (simp_all add: st0_def)
  show ?thesis
  proof (cases "isLoading st0 \<or> \<not> isInitialized st0 \<or> initialRenderRef st0")
    case True
    then have "saveEffect st = st0\<lparr>initialRenderRef := False, saveCleanup := False\<rparr>"
      unfolding saveEffect_def st0_def [symmetric] by (simp add: Let_def)
    with s0 show ?thesis by simp
  next
    case False
    define st1 where "st1 = st0\<lparr>entriesMapRef := setAll Map.empty (entries st0)\<rparr>"
    define st2 where "st2 = (case saveTimeoutRef st1 of None \<Rightarrow> st1 | Some i \<Rightarrow> clearTimeout i st1)"
    have s2: "entries st2 = entries st" "entriesMapRef st2 = setAll Map.empty (entries st)"
      "pendingUpdatesRef st2 = pendingUpdatesRef st"
      by (simp_all add: st2_def st1_def s0 split: option.splits)
    have "saveEffect st = st2\<lparr>timers := timers st2 @ [(nextTimer st2, now st2 + 500, entries st2)],
               nextTimer := Suc (nextTimer st2),
               saveTimeoutRef := Some (nextTimer st2),
               saveCleanup := True\<rparr>"
      unfolding saveEffect_def st0_def [symmetric] Let_def st1_def [symmetric] st2_def [symmetric]
      using False by simp
    with s2 show ?thesis by simp
  qed
qed

lemma store_inv_saveEffect: "store_inv st \<Longrightarrow> store_inv (saveEffect st)"
proof -
  assume inv: "store_inv st"
  note i = store_inv_parts [OF inv]
  from saveEffect_store [of st] have e: "entries (saveEffect st) = entries st"
    and p: "pendingUpdatesRef (saveEffect st) = pendingUpdatesRef st" by simp_all
  from saveEffect_store [of st] consider
    "entriesMapRef (saveEffect st) = entriesMapRef st" |
    "entriesMapRef (saveEffect st) = setAll Map.empty (entries st)" by blast
  then show ?thesis
  proof cases
    case 1
    with e p inv store_inv_cong [of "saveEffect st" st] show ?thesis by simp
  next
    case 2
    from i(1,2) e 2 show ?thesis by (rule store_inv_rebuild) (simp add: p i(5))
  qed
qed

lemma foldl_fire_store:
  "entries (foldl fire st ts) = entries st \<and> entriesMapRef (foldl fire st ts) = entriesMapRef st \<and>
   pendingUpdatesRef (foldl fire st ts) = pendingUpdatesRef st"
  by (induction ts arbitrary: st) (simp_all add: fire_def split: prod.splits)

lemma store_inv_advance: "store_inv st \<Longrightarrow> store_inv (advance st dt)"
  using foldl_fire_store by (simp add: advance_def Let_def store_inv_def)

lemma store_inv_loadEntries:
  assumes inv: "store_inv st" and v: "valid_batch s2n st os"
    and l: "loadEntries s2n st (Some (map Some os)) = Loaded st'"
  shows "store_inv st'"
proof -
  let ?P = "fst (processedObjects s2n os (nextUUID st))"
  define k where "k = 50 * ((length os - 0 - 1) div 50)"
  from processChunk_closed [of 50 s2n st os 0] l
  have e: "entries st' = entries st @ drop k ?P" and
    m: "entriesMapRef st' = setAll (entriesMapRef st) ?P" and
    pe: "pendingUpdatesRef st' = pendingUpdatesRef st"
    by (auto simp: loadEntries_def k_def)
  note i = store_inv_parts [OF inv]
  have pd: "map date ?P = map raw_date os" by (rule processedObjects_date)
  have pp: "map production ?P = map (\<lambda>r. Number_of s2n (raw_production r)) os"
    by (rule processedObjects_production)
  have rP: "\<forall>e\<in>set ?P. in_range (production e)"
  proof
    fix e assume "e \<in> set ?P"
    then have "production e \<in> set (map production ?P)" by simp
    then show "in_range (production e)" using v unfolding pp valid_batch_def by auto
  qed
  have dP: "distinct (map date ?P)" using v unfolding pd valid_batch_def by simp
  have nP: "\<forall>e\<in>set ?P. date e \<notin> date ` set (entries st)"
  proof
    fix e assume "e \<in> set ?P"
    then have "date e \<in> set (map date ?P)" by simp
    then have "date e \<in> set (map raw_date os)" by (simp only: pd)
    then obtain r where "r \<in> set os" "raw_date r = date e" by auto
    with v show "date e \<notin> date ` set (entries st)" unfolding valid_batch_def by metis
  qed
  have sub: "set (drop k ?P) \<subseteq> set ?P" by (rule set_drop_subset)
  have 1: "\<forall>e\<in>set (entries st'). in_range (production e)"
  proof
    fix x assume "x \<in> set (entries st')"
    then have "x \<in> set (entries st) \<or> x \<in> set (drop k ?P)" by (simp add: e)
    with i(1) rP sub show "in_range (production x)" by blast
  qed
  have dk: "distinct (map date (drop k ?P))" using dP by (simp add: drop_map [symmetric])
  have disj: "set (map date (entries st)) \<inter> set (map date (drop k ?P)) = {}"
  proof -
    have False if x: "x \<in> set (map date (entries st))" "x \<in> set (map date (drop k ?P))" for x
    proof -
      from x(2) obtain b where b: "b \<in> set (drop k ?P)" "x = date b" by auto
      with sub have "b \<in> set ?P" by blast
      with nP b(2) have "x \<notin> date ` set (entries st)" by simp
      with x(1) show False by simp
    qed
    then show ?thesis by blast
  qed
  have 2: "distinct (map date (entries st'))"
    using i(2) dk disj by (simp add: e)
  have 3: "\<forall>k x. entriesMapRef st' k = Some x \<longrightarrow> in_range (production x)"
  proof (intro allI impI)
    fix k x assume "entriesMapRef st' k = Some x"
    then have "setAll (entriesMapRef st) ?P k = Some x" by (simp only: m)
    from setAll_value [OF this] i(3) rP show "in_range (production x)" by blast
  qed
  have 4: "\<forall>x\<in>set (entries st'). entriesMapRef st' (date x) = Some x"
  proof
    fix x assume "x \<in> set (entries st')"
    then consider "x \<in> set (entries st)" | "x \<in> set (drop k ?P)" by (auto simp: e)
    then show "entriesMapRef st' (date x) = Some x"
    proof cases
      case 1
      then have "\<not> (\<exists>e\<in>set ?P. date e = date x)" using nP by force
      with 1 i(4) show ?thesis unfolding m by (simp add: setAll_lookup)
    next
      case 2
      with sub have "x \<in> set ?P" by blast
      with dP show ?thesis unfolding m by (simp add: setAll_distinct)
    qed
  qed
  from 1 2 3 4 pe i(5) show ?thesis unfolding store_inv_def by simp
qed

lemma store_inv_initial: "store_inv initial"
  by (simp add: store_inv_def initial_def)

lemma reachable_inv: "reachable st \<Longrightarrow> store_inv st"
proof (induction rule: reachable.induct)
  case r_initial
  then show ?case by (rule store_inv_initial)
next
  case (r_setDate st d)
  then show ?case by (simp add: store_inv_def)
next
  case (r_edit st d v)
  then show ?case by (simp add: store_inv_handleEditBlur)
next
  case (r_submit st today v)
  then show ?case by (simp add: store_inv_handleSubmit)
next
  case (r_week st)
  then show ?case
    using getCurrentWeekEntries_store [of st] store_inv_cong [of "snd (getCurrentWeekEntries st)" st]
    by simp
next
  case (r_effect st)
  then show ?case by (simp add: store_inv_saveEffect)
next
  case (r_time st dt)
  then show ?case by (simp add: store_inv_advance)
next
  case (r_load st s2n os st')
  then show ?case using store_inv_loadEntries by blast
next
  case (r_load_none st s2n st')
  then have "entries st' = entries st" "entriesMapRef st' = entriesMapRef st"
    "pendingUpdatesRef st' = pendingUpdatesRef st"
    by (auto simp: loadEntries_def)
  with r_load_none.IH store_inv_cong [of st' st] show ?case by simp
qed

text \<open>
  C1 (as amended). In every state reached from the initial one by selecting a date, by
  inline edits (\<^verbatim>\<open>updateEntry\<close> behind the \<^verbatim>\<open>isNaN\<close> check of its handlers), by form
  submissions, by week materializations, by runs of the save effect and its timer, and
  by bulk loads of batches that respect the data model already, every entry of the
  listing and of the map has \<open>0 \<le> production \<le> 100\<close> and the listing has at most one
  entry per date.
\<close>

theorem reachable_bounds_and_unique_dates:
  assumes "reachable st"
  shows "(\<forall>e\<in>set (entries st). in_range (production e)) \<and>
         distinct (map date (entries st)) \<and>
         (\<forall>k e. entriesMapRef st k = Some e \<longrightarrow> in_range (production e))"
  using reachable_inv [OF assms] by (simp add: store_inv_def)

theorem reachable_bounds_and_unique_dates_witness:
  "entries (handleEditBlur initial ''1970-01-01'' (Num 5)) =
     [\<lparr>date = Some ''1970-01-01'', production = Num 5, id' = randomUUID 0\<rparr>] \<and>
   in_range (production (hd (entries (handleEditBlur initial ''1970-01-01'' (Num 5))))) \<and>
   distinct (map date (entries (handleEditBlur initial ''1970-01-01'' (Num 5))))"
proof -
  have r: "reachable (handleEditBlur initial ''1970-01-01'' (Num 5))"
    by (rule r_edit) (rule r_initial)
  have e: "entries (handleEditBlur initial ''1970-01-01'' (Num 5)) =
     [\<lparr>date = Some ''1970-01-01'', production = Num 5, id' = randomUUID 0\<rparr>]"
    by (simp add: handleEditBlur_def updateEntry_def setEntriesUpdate_def initial_def Let_def)
  from reachable_bounds_and_unique_dates [OF r]
  have "(\<forall>x\<in>set (entries (handleEditBlur initial ''1970-01-01'' (Num 5))). in_range (production x)) \<and>
        distinct (map date (entries (handleEditBlur initial ''1970-01-01'' (Num 5))))" by blast
  then have "in_range (production (hd (entries (handleEditBlur initial ''1970-01-01'' (Num 5))))) \<and>
        distinct (map date (entries (handleEditBlur initial ''1970-01-01'' (Num 5))))"
    unfolding e by simp
  with e show ?thesis by blast
qed

text \<open>The bulk load stores what storage holds: a production of 500 and two entries for
  one date arrive in the listing.\<close>

theorem load_out_of_range_counterexample:
  "loadEntries (\<lambda>s. NaN) initial
      (Some [Some \<lparr>raw_id = Some ''a'', raw_date = Some ''2024-01-01'',
                   raw_production = JNumber (Num 500)\<rparr>,
             Some \<lparr>raw_id = Some ''b'', raw_date = Some ''2024-01-01'',
                   raw_production = JNumber (Num 1)\<rparr>]) =
     Loaded (initial
       \<lparr>entriesMapRef :=
          [Some ''2024-01-01'' \<mapsto>
             \<lparr>date = Some ''2024-01-01'', production = Num 1, id' = ''b''\<rparr>],
        entries :=
          [\<lparr>date = Some ''2024-01-01'', production = Num 500, id' = ''a''\<rparr>,
           \<lparr>date = Some ''2024-01-01'', production = Num 1, id' = ''b''\<rparr>],
        isLoading := False, isInitialized := True\<rparr>) \<and>
   \<not> in_range (Num 500)"
proof -
  let ?b = "[\<lparr>raw_id = Some ''a'', raw_date = Some ''2024-01-01'',
              raw_production = JNumber (Num 500)\<rparr>,
             \<lparr>raw_id = Some ''b'', raw_date = Some ''2024-01-01'',
              raw_production = JNumber (Num 1)\<rparr>]"
  have "length ?b \<le> 50" by simp
  from loadEntries_one_chunk [OF this, of "\<lambda>s. NaN" initial]
  show ?thesis
    by (simp add: initial_def in_range_def setAll_def)
qed

section \<open>Upsert, then lookup\<close>







lemma onSubmit_selectedDate: "selectedDate (onSubmit st today v) = selectedDate st"
  by (simp add: onSubmit_def updateEntriesState_def Let_def split: option.splits sum.splits)

lemma handleSubmit_in_range:
  "in_range x \<Longrightarrow> handleSubmit st today x = onSubmit st today x"
  by (auto simp: handleSubmit_def formSchema_def in_range_Num)

text \<open>The form submission for a date the map does not hold: the new entry is appended.\<close>

lemma onSubmit_unmapped:
  assumes sel: "selectedDate st = Some dt" "\<not> date_gt dt today"
    and f: "format_yyyy_MM_dd dt = Inr d"
    and none: "entriesMapRef st (Some d) = None"
  shows "entriesMapRef (onSubmit st today v) (Some d) =
           Some \<lparr>date = Some d, production = (if truthy v then v else Num 0),
                 id' = randomUUID (nextUUID st)\<rparr>"
    and "\<lparr>date = Some d, production = (if truthy v then v else Num 0),
          id' = randomUUID (nextUUID st)\<rparr> \<in> set (entries (onSubmit st today v))"
    and "pendingUpdatesRef (onSubmit st today v) = pendingUpdatesRef st"
  using sel f none by (simp_all add: onSubmit_def updateEntriesState_def Let_def setAll_snoc)

text \<open>The form submission for a date of the listing: the entry keeps all but its
  production.\<close>

lemma onSubmit_listed:
  assumes inv: "store_inv st"
    and sel: "selectedDate st = Some dt" "\<not> date_gt dt today"
    and f: "format_yyyy_MM_dd dt = Inr d"
    and old: "old \<in> set (entries st)" "date old = Some d"
  shows "entriesMapRef (onSubmit st today v) (Some d) =
           Some (old\<lparr>production := (if truthy v then v else Num 0)\<rparr>)"
    and "old\<lparr>production := (if truthy v then v else Num 0)\<rparr> \<in> set (entries (onSubmit st today v))"
    and "pendingUpdatesRef (onSubmit st today v) = pendingUpdatesRef st"
proof -
  define pv where "pv = (if truthy v then v else Num 0)"
  note i = store_inv_parts [OF inv]
  from i(4) old have m: "entriesMapRef st (Some d) = Some old" by force
  let ?f = "\<lambda>entry. if date entry = Some d then entry\<lparr>production := pv\<rparr> else entry"
  have o: "entries (onSubmit st today v) = map ?f (entries st)"
    "entriesMapRef (onSubmit st today v) = setAll Map.empty (map ?f (entries st))"
    "pendingUpdatesRef (onSubmit st today v) = pendingUpdatesRef st"
    unfolding onSubmit_def Let_def pv_def [symmetric]
    using sel f m by (simp_all add: updateEntriesState_def)
  have md: "map date (map ?f (entries st)) = map date (entries st)" by simp
  from old(1) have "?f old \<in> ?f ` set (entries st)" by (rule imageI)
  then have mem: "?f old \<in> set (map ?f (entries st))" by (simp only: set_map)
  have dist': "distinct (map date (map ?f (entries st)))" using i(2) by (simp only: md)
  from dist' mem have "setAll Map.empty (map ?f (entries st)) (date (?f old)) = Some (?f old)"
    by (rule setAll_distinct)
  with old(2) have l: "setAll Map.empty (map ?f (entries st)) (Some d) = Some (old\<lparr>production := pv\<rparr>)"
    by simp
  from mem old(2) have mem': "old\<lparr>production := pv\<rparr> \<in> set (map ?f (entries st))" by simp
  have 1: "entriesMapRef (onSubmit st today v) (Some d) = Some (old\<lparr>production := pv\<rparr>)"
    using l by (simp only: o(2))
  have 2: "old\<lparr>production := pv\<rparr> \<in> set (entries (onSubmit st today v))"
    using mem' by (simp only: o(1))
  from 1 show "entriesMapRef (onSubmit st today v) (Some d) =
           Some (old\<lparr>production := (if truthy v then v else Num 0)\<rparr>)" unfolding pv_def .
  from 2 show "old\<lparr>production := (if truthy v then v else Num 0)\<rparr> \<in> set (entries (onSubmit st today v))"
    unfolding pv_def .
  show "pendingUpdatesRef (onSubmit st today v) = pendingUpdatesRef st" by (rule o(3))
qed

text \<open>The form submission for a date that the map holds and the listing does not (as
  after a load of more than one chunk): the listing stays as it is, the map is rebuilt
  from it, and the date is in neither.\<close>

lemma onSubmit_mapped_unlisted:
  assumes sel: "selectedDate st = Some dt" "\<not> date_gt dt today"
    and f: "format_yyyy_MM_dd dt = Inr d"
    and m: "entriesMapRef st (Some d) = Some e"
    and nd: "\<forall>x\<in>set (entries st). date x \<noteq> Some d"
  shows "entries (onSubmit st today v) = entries st"
    and "entriesMapRef (onSubmit st today v) (Some d) = None"
proof -
  define pv where "pv = (if truthy v then v else Num 0)"
  let ?f = "\<lambda>entry. if date entry = Some d then entry\<lparr>production := pv\<rparr> else entry"
  have same: "map ?f (entries st) = entries st" using nd by (simp add: map_idI)
  have o: "entries (onSubmit st today v) = map ?f (entries st)"
    "entriesMapRef (onSubmit st today v) = setAll Map.empty (map ?f (entries st))"
    unfolding onSubmit_def Let_def pv_def [symmetric]
    using sel f m by (simp_all add: updateEntriesState_def)
  from o(1) same show "entries (onSubmit st today v) = entries st" by simp
  have "setAll Map.empty (entries st) (Some d) = None" using nd by (simp add: setAll_lookup)
  with o(2) same show "entriesMapRef (onSubmit st today v) (Some d) = None" by simp
qed




lemma format_1970: "format_yyyy_MM_dd (Time 0) = Inr ''1970-01-01''"
  by code_simp




section \<open>The week cache\<close>

lemma onSubmit_cache:
  assumes "selectedDate st = Some dt" "\<not> date_gt dt today" "format_yyyy_MM_dd dt = Inr fd"
  shows "weeklyEntriesCache (onSubmit st today v) = None"
  using assms by (simp add: onSubmit_def updateEntriesState_def Let_def split: option.splits)

text \<open>After a materialization the week is in the cache, under the key of its first day.\<close>

lemma getCurrentWeekEntries_cached:
  assumes sel: "selectedDate st = Some (Time t)"
  shows "\<exists>ws. format_yyyy_MM_dd (startOfWeek (Time t)) = Inr ws \<and>
              cached (snd (getCurrentWeekEntries st)) ws = Some (fst (getCurrentWeekEntries st))"
proof -
  obtain ws where ws: "format_yyyy_MM_dd (startOfWeek (Time t)) = Inr ws"
    using startOfWeek_Time [of t] format_Time by metis
  have "cached (snd (getCurrentWeekEntries st)) ws = Some (fst (getCurrentWeekEntries st))"
  proof (cases "cached st ws")
    case None
    from getCurrentWeekEntries_miss [OF sel ws None] obtain es c where
      "getCurrentWeekEntries st =
         (es, st\<lparr>weeklyEntriesCache := Some (ws, es), nextUUID := c\<rparr>)" by blast
    then show ?thesis by (simp add: cached_def)
  next
    case (Some es)
    from getCurrentWeekEntries_hit [OF sel ws Some] Some show ?thesis by simp
  qed
  with ws show ?thesis by blast
qed

text \<open>The week starts on the Sunday on or before the selected date, and the days that
  follow are consecutive.\<close>

lemma week_bounds:
  fixes t day r s gm m :: int
  assumes "t = day * m + r" "0 \<le> r" "r < m" "s = day * m - gm" "0 \<le> gm" "gm \<le> 6 * m"
  shows "s \<le> t \<and> t < s + 7 * m"
  using assms by linarith

lemma startOfWeek_is_sunday_of_week:
  "\<exists>s. startOfWeek (Time t) = Time s \<and> s \<le> t \<and> t < s + 7 * msPerDay \<and>
       s mod msPerDay = 0 \<and> getDay (s div msPerDay) = 0"
proof -
  define day where "day = t div msPerDay"
  define r where "r = t mod msPerDay"
  define g where "g = getDay day"
  define s where "s = (day - g) * msPerDay"
  have pos: "0 < msPerDay" by (simp add: msPerDay_def)
  have g: "0 \<le> g \<and> g \<le> 6 \<and> (day - g + 4) mod 7 = 0"
    unfolding g_def getDay_def by presburger
  have t: "t = day * msPerDay + r"
    unfolding day_def r_def by (rule div_mult_mod_eq [symmetric])
  have r: "0 \<le> r" "r < msPerDay" using pos by (simp_all add: r_def)
  have s: "s = day * msPerDay - g * msPerDay" unfolding s_def by (rule left_diff_distrib)
  have gm: "0 \<le> g * msPerDay" "g * msPerDay \<le> 6 * msPerDay"
    using g pos by (simp_all add: mult_right_mono)
  from week_bounds [OF t r s gm] have b: "s \<le> t" "t < s + 7 * msPerDay" by simp_all
  have m: "s mod msPerDay = 0" unfolding s_def by (rule mod_mult_self2_is_0)
  have "s div msPerDay = day - g" using pos by (simp add: s_def)
  with g have sun: "getDay (s div msPerDay) = 0" by (simp only: getDay_def)
  have w: "startOfWeek (Time t) = Time s"
    unfolding s_def g_def day_def by (simp add: Let_def)
  show ?thesis
  proof (intro exI conjI)
    show "startOfWeek (Time t) = Time s" by (rule w)
    show "s \<le> t" by (rule b(1))
    show "t < s + 7 * msPerDay" by (rule b(2))
    show "s mod msPerDay = 0" by (rule m)
    show "getDay (s div msPerDay) = 0" by (rule sun)
  qed
qed

lemma addDays_day:
  "addDays (Time s) n = Time (s + n * msPerDay) \<and>
   (s + n * msPerDay) div msPerDay = s div msPerDay + n"
  by (simp add: msPerDay_def)

text \<open>The selected day is one of the seven days of its week.\<close>

lemma selected_day_in_week:
  "\<exists>i<7. format_yyyy_MM_dd (addDays (startOfWeek (Time t)) (int i)) = format_yyyy_MM_dd (Time t)"
proof -
  define day where "day = t div msPerDay"
  define g where "g = getDay day"
  have pos: "0 < msPerDay" by (simp add: msPerDay_def)
  have g: "0 \<le> g" "g < 7" unfolding g_def getDay_def by simp_all
  have w: "startOfWeek (Time t) = Time ((day - g) * msPerDay)"
    unfolding g_def day_def by (simp add: Let_def)
  have "(day - g) * msPerDay + int (nat g) * msPerDay = day * msPerDay"
    using g(1) by (simp add: left_diff_distrib)
  then have a: "addDays (startOfWeek (Time t)) (int (nat g)) = Time (day * msPerDay)"
    unfolding w by simp
  have "day * msPerDay div msPerDay = day" using pos by simp
  then have "format_yyyy_MM_dd (Time (day * msPerDay)) = format_yyyy_MM_dd (Time t)"
    by (simp add: day_def)
  with a have "format_yyyy_MM_dd (addDays (startOfWeek (Time t)) (int (nat g))) =
               format_yyyy_MM_dd (Time t)" by simp
  moreover have "nat g < 7" using g by simp
  ultimately show ?thesis by blast
qed

text \<open>A materialization after a form submission is computed from the store the
  submission left.\<close>

lemma week_after_handleSubmit_store:
  assumes v: "in_range v"
    and sel: "selectedDate st = Some (Time t)" "\<not> date_gt (Time t) today"
    and i: "i < 7"
  shows "\<exists>wd. format_yyyy_MM_dd (addDays (startOfWeek (Time t)) (int i)) = Inr wd \<and>
              date (fst (getCurrentWeekEntries (handleSubmit st today v)) ! i) = Some wd \<and>
              production (fst (getCurrentWeekEntries (handleSubmit st today v)) ! i) =
                spec_dayProduction (handleSubmit st today v) wd"
proof -
  let ?st' = "onSubmit st today v"
  have h: "handleSubmit st today v = ?st'" using v by (rule handleSubmit_in_range)
  obtain fd where f: "format_yyyy_MM_dd (Time t) = Inr fd" using format_Time by blast
  obtain ws where ws: "format_yyyy_MM_dd (startOfWeek (Time t)) = Inr ws"
    using startOfWeek_Time [of t] format_Time by metis
  have sel': "selectedDate ?st' = Some (Time t)" using sel(1) by (simp add: onSubmit_selectedDate)
  have "weeklyEntriesCache ?st' = None" using sel f by (rule onSubmit_cache)
  then have miss: "cached ?st' ws = None" by (simp add: cached_def)
  from getCurrentWeekEntries_miss [OF sel' ws miss] obtain es c where
    g: "getCurrentWeekEntries ?st' =
          (es, ?st'\<lparr>weeklyEntriesCache := Some (ws, es), nextUUID := c\<rparr>)"
    and days: "\<forall>i<7. \<exists>wd. format_yyyy_MM_dd (addDays (startOfWeek (Time t)) (int i)) = Inr wd \<and>
              date (es ! i) = Some wd \<and> production (es ! i) = spec_dayProduction ?st' wd"
    by blast
  from days i g show ?thesis unfolding h by simp
qed

text \<open>A materialization after a form submission shows the submitted value on the
  selected day.\<close>

lemma week_after_handleSubmit:
  assumes r: "reachable st" and v: "in_range v"
    and sel: "selectedDate st = Some (Time t)" "\<not> date_gt (Time t) today"
    and f: "format_yyyy_MM_dd (Time t) = Inr d"
    and ex: "entriesMapRef st (Some d) = None \<or> (\<exists>old\<in>set (entries st). date old = Some d)"
  shows "length (fst (getCurrentWeekEntries (handleSubmit st today v))) = 7 \<and>
         (\<exists>i<7. date (fst (getCurrentWeekEntries (handleSubmit st today v)) ! i) = Some d \<and>
                production (fst (getCurrentWeekEntries (handleSubmit st today v)) ! i) = v)"
proof -
  let ?st' = "onSubmit st today v"
  note inv = reachable_inv [OF r]
  note pv = in_range_productionValue [OF v]
  have h: "handleSubmit st today v = ?st'" using v by (rule handleSubmit_in_range)
  obtain ws where ws: "format_yyyy_MM_dd (startOfWeek (Time t)) = Inr ws"
    using startOfWeek_Time [of t] format_Time by metis
  have sel': "selectedDate ?st' = Some (Time t)" using sel(1) by (simp add: onSubmit_selectedDate)
  have "weeklyEntriesCache ?st' = None" using sel f by (rule onSubmit_cache)
  then have miss: "cached ?st' ws = None" by (simp add: cached_def)
  from getCurrentWeekEntries_miss [OF sel' ws miss] obtain es c where
    g: "getCurrentWeekEntries ?st' =
          (es, ?st'\<lparr>weeklyEntriesCache := Some (ws, es), nextUUID := c\<rparr>)"
    and len: "length es = 7"
    and days: "\<forall>i<7. \<exists>wd. format_yyyy_MM_dd (addDays (startOfWeek (Time t)) (int i)) = Inr wd \<and>
              date (es ! i) = Some wd \<and> production (es ! i) = spec_dayProduction ?st' wd"
    by blast
  from selected_day_in_week [of t] f obtain i where
    i: "i < 7" "format_yyyy_MM_dd (addDays (startOfWeek (Time t)) (int i)) = Inr d" by auto
  from days i have e: "date (es ! i) = Some d"
    "production (es ! i) = spec_dayProduction ?st' d" by auto
  have look: "\<exists>e. entriesMapRef ?st' (Some d) = Some e \<and> production e = v \<and>
                pendingUpdatesRef ?st' = pendingUpdatesRef st"
    using ex
  proof
    assume "entriesMapRef st (Some d) = None"
    from onSubmit_unmapped(1,3) [OF sel f this, of v] pv show ?thesis by simp
  next
    assume "\<exists>old\<in>set (entries st). date old = Some d"
    then obtain old where "old \<in> set (entries st)" "date old = Some d" by blast
    from onSubmit_listed(1,3) [OF inv sel f this, of v] pv show ?thesis by simp
  qed
  then have "spec_dayProduction ?st' d = v"
    using store_inv_parts(5) [OF inv] by (auto simp: spec_dayProduction_def)
  with g e i(1) len show ?thesis unfolding h by auto
qed

text \<open>
  C7. Materializing the week a second time, with nothing in between, returns the same
  entries and leaves the state, the identifier count included, as the first call left it:
  after the first call the week is in the cache under the key of its first day, the
  second call returns the cached week and nothing is recomputed. Every upsert invalidates
  the cache: \<^verbatim>\<open>updateEntriesState\<close> (form submission) always, \<^verbatim>\<open>updateEntry\<close> whenever it
  accepts the value (a rejected value changes nothing); the pending value \<^verbatim>\<open>updateEntry\<close>
  sets is removed again before it returns. With the cache invalidated the next
  materialization is computed from the current map and pending values: after
  \<^verbatim>\<open>updateEntry\<close> on a day of the selected week that day shows the new value; after a
  form submission every day of the week shows what the store holds after the submission,
  and in a reachable state the selected day shows the submitted value whenever the
  submission stored it (for a date that is new to the map, or that the listing holds).
\<close>

theorem week_cache_idempotent_and_invalidated:
  "getCurrentWeekEntries (snd (getCurrentWeekEntries st)) = getCurrentWeekEntries st \<and>
   (selectedDate st = Some (Time t) \<longrightarrow>
      (\<exists>ws. format_yyyy_MM_dd (startOfWeek (Time t)) = Inr ws \<and>
            cached (snd (getCurrentWeekEntries st)) ws = Some (fst (getCurrentWeekEntries st)))) \<and>
   weeklyEntriesCache (updateEntriesState st es) = None \<and>
   entries (updateEntriesState st es) = es \<and>
   (selectedDate st = Some dt \<and> \<not> date_gt dt today \<and> format_yyyy_MM_dd dt = Inr fd \<longrightarrow>
      weeklyEntriesCache (onSubmit st today v) = None) \<and>
   (js_lt p (Num 0) \<or> js_gt p (Num 100) \<longrightarrow> updateEntry st d p = st) \<and>
   (\<not> js_lt p (Num 0) \<and> \<not> js_gt p (Num 100) \<longrightarrow>
      weeklyEntriesCache (updateEntry st d p) = None \<and>
      pendingUpdatesRef (updateEntry st d p) d = None \<and>
      (selectedDate st = Some (Time t) \<and> i < 7 \<and>
       format_yyyy_MM_dd (addDays (startOfWeek (Time t)) (int i)) = Inr d \<longrightarrow>
         production (fst (getCurrentWeekEntries (updateEntry st d p)) ! i) = p)) \<and>
   (in_range v \<and> selectedDate st = Some (Time t) \<and> \<not> date_gt (Time t) today \<and> i < 7 \<longrightarrow>
      (\<exists>wd. format_yyyy_MM_dd (addDays (startOfWeek (Time t)) (int i)) = Inr wd \<and>
            date (fst (getCurrentWeekEntries (handleSubmit st today v)) ! i) = Some wd \<and>
            production (fst (getCurrentWeekEntries (handleSubmit st today v)) ! i) =
              spec_dayProduction (handleSubmit st today v) wd)) \<and>
   (reachable st \<and> in_range v \<and> selectedDate st = Some (Time t) \<and> \<not> date_gt (Time t) today \<and>
    format_yyyy_MM_dd (Time t) = Inr fd \<and>
    (entriesMapRef st (Some fd) = None \<or> (\<exists>old\<in>set (entries st). date old = Some fd)) \<longrightarrow>
      length (fst (getCurrentWeekEntries (handleSubmit st today v))) = 7 \<and>
      (\<exists>k<7. date (fst (getCurrentWeekEntries (handleSubmit st today v)) ! k) = Some fd \<and>
             production (fst (getCurrentWeekEntries (handleSubmit st today v)) ! k) = v)) \<and>
   (weeklyEntriesCache st = None \<and> selectedDate st = Some (Time t) \<and> i < 7 \<longrightarrow>
      (\<exists>wd. format_yyyy_MM_dd (addDays (startOfWeek (Time t)) (int i)) = Inr wd \<and>
            production (fst (getCurrentWeekEntries st) ! i) = spec_dayProduction st wd))"
proof -
  have fresh: "\<exists>wd. format_yyyy_MM_dd (addDays (startOfWeek (Time t)) (int i)) = Inr wd \<and>
            production (fst (getCurrentWeekEntries st) ! i) = spec_dayProduction st wd"
    if c: "weeklyEntriesCache st = None" and s: "selectedDate st = Some (Time t)" and i: "i < 7"
  proof -
    obtain ws where ws: "format_yyyy_MM_dd (startOfWeek (Time t)) = Inr ws"
      using startOfWeek_Time [of t] format_Time by metis
    have "cached st ws = None" using c by (simp add: cached_def)
    from getCurrentWeekEntries_miss [OF s ws this] i show ?thesis by fastforce
  qed
  have 1: "getCurrentWeekEntries (snd (getCurrentWeekEntries st)) = getCurrentWeekEntries st"
    by (rule getCurrentWeekEntries_idem)
  have 2: "selectedDate st = Some (Time t) \<longrightarrow>
      (\<exists>ws. format_yyyy_MM_dd (startOfWeek (Time t)) = Inr ws \<and>
            cached (snd (getCurrentWeekEntries st)) ws = Some (fst (getCurrentWeekEntries st)))"
    using getCurrentWeekEntries_cached by blast
  have 3: "weeklyEntriesCache (updateEntriesState st es) = None \<and>
           entries (updateEntriesState st es) = es" by (simp add: updateEntriesState_def)
  have 4: "selectedDate st = Some dt \<and> \<not> date_gt dt today \<and> format_yyyy_MM_dd dt = Inr fd \<longrightarrow>
      weeklyEntriesCache (onSubmit st today v) = None"
    using onSubmit_cache by blast
  have 5: "js_lt p (Num 0) \<or> js_gt p (Num 100) \<longrightarrow> updateEntry st d p = st"
    using updateEntry_rejected by blast
  have 6: "\<not> js_lt p (Num 0) \<and> \<not> js_gt p (Num 100) \<longrightarrow>
      weeklyEntriesCache (updateEntry st d p) = None \<and>
      pendingUpdatesRef (updateEntry st d p) d = None \<and>
      (selectedDate st = Some (Time t) \<and> i < 7 \<and>
       format_yyyy_MM_dd (addDays (startOfWeek (Time t)) (int i)) = Inr d \<longrightarrow>
         production (fst (getCurrentWeekEntries (updateEntry st d p)) ! i) = p)"
    using updateEntry_cache [of p st d] updateEntry_pending [of p st d]
      week_after_updateEntry [of p st t i d] by simp
  have 7: "in_range v \<and> selectedDate st = Some (Time t) \<and> \<not> date_gt (Time t) today \<and> i < 7 \<longrightarrow>
      (\<exists>wd. format_yyyy_MM_dd (addDays (startOfWeek (Time t)) (int i)) = Inr wd \<and>
            date (fst (getCurrentWeekEntries (handleSubmit st today v)) ! i) = Some wd \<and>
            production (fst (getCurrentWeekEntries (handleSubmit st today v)) ! i) =
              spec_dayProduction (handleSubmit st today v) wd)"
    using week_after_handleSubmit_store [of v st t today i] by blast
  have 9: "reachable st \<and> in_range v \<and> selectedDate st = Some (Time t) \<and> \<not> date_gt (Time t) today \<and>
    format_yyyy_MM_dd (Time t) = Inr fd \<and>
    (entriesMapRef st (Some fd) = None \<or> (\<exists>old\<in>set (entries st). date old = Some fd)) \<longrightarrow>
      length (fst (getCurrentWeekEntries (handleSubmit st today v))) = 7 \<and>
      (\<exists>k<7. date (fst (getCurrentWeekEntries (handleSubmit st today v)) ! k) = Some fd \<and>
             production (fst (getCurrentWeekEntries (handleSubmit st today v)) ! k) = v)"
    using week_after_handleSubmit [of st v t today fd] by blast
  have 8: "weeklyEntriesCache st = None \<and> selectedDate st = Some (Time t) \<and> i < 7 \<longrightarrow>
      (\<exists>wd. format_yyyy_MM_dd (addDays (startOfWeek (Time t)) (int i)) = Inr wd \<and>
            production (fst (getCurrentWeekEntries st) ! i) = spec_dayProduction st wd)"
    using fresh by blast
  from 1 2 3 4 5 6 7 9 8 show ?thesis by (intro conjI) blast+
qed

theorem week_cache_idempotent_and_invalidated_witness:
  "\<not> js_lt (Num 5) (Num 0) \<and> \<not> js_gt (Num 5) (Num 100) \<and> in_range (Num 5) \<and>
   reachable (initial\<lparr>selectedDate := Some (Time 0)\<rparr>) \<and>
   selectedDate (initial\<lparr>selectedDate := Some (Time 0)\<rparr>) = Some (Time 0) \<and> (4::nat) < 7 \<and>
   \<not> date_gt (Time 0) (Time 0) \<and>
   format_yyyy_MM_dd (Time 0) = Inr ''1970-01-01'' \<and>
   format_yyyy_MM_dd (startOfWeek (Time 0)) = Inr ''1969-12-28'' \<and>
   format_yyyy_MM_dd (addDays (startOfWeek (Time 0)) (int 4)) = Inr ''1970-01-01'' \<and>
   entriesMapRef (initial\<lparr>selectedDate := Some (Time 0)\<rparr>) (Some ''1970-01-01'') = None \<and>
   cached (snd (getCurrentWeekEntries (initial\<lparr>selectedDate := Some (Time 0)\<rparr>))) ''1969-12-28'' =
     Some (fst (getCurrentWeekEntries (initial\<lparr>selectedDate := Some (Time 0)\<rparr>))) \<and>
   weeklyEntriesCache (updateEntry (initial\<lparr>selectedDate := Some (Time 0)\<rparr>) ''1970-01-01'' (Num 5))
     = None \<and>
   production (fst (getCurrentWeekEntries
       (updateEntry (initial\<lparr>selectedDate := Some (Time 0)\<rparr>) ''1970-01-01'' (Num 5))) ! 4) = Num 5 \<and>
   length (fst (getCurrentWeekEntries
       (handleSubmit (initial\<lparr>selectedDate := Some (Time 0)\<rparr>) (Time 0) (Num 5)))) = 7 \<and>
   (Some ''1970-01-01'', Num 5) \<in>
     (\<lambda>e. (date e, production e)) `
       set (fst (getCurrentWeekEntries
         (handleSubmit (initial\<lparr>selectedDate := Some (Time 0)\<rparr>) (Time 0) (Num 5))))"
proof -
  let ?st = "initial\<lparr>selectedDate := Some (Time 0)\<rparr>"
  let ?w = "fst (getCurrentWeekEntries (handleSubmit ?st (Time 0) (Num 5)))"
  have re: "reachable ?st" by (rule r_setDate [OF r_initial])
  have r: "in_range (Num 5)" by (simp add: in_range_def)
  have m: "entriesMapRef ?st (Some ''1970-01-01'') = None" by (simp add: initial_def)
  have sel: "selectedDate ?st = Some (Time 0)" by simp
  note t = week_cache_idempotent_and_invalidated
          [where st = ?st and es = "[]" and dt = "Time 0" and today = "Time 0"
             and fd = "''1970-01-01''" and v = "Num 5" and p = "Num 5" and d = "''1970-01-01''"
             and t = 0 and i = 4]
  from t sel week_1970(1)
  have c: "cached (snd (getCurrentWeekEntries ?st)) ''1969-12-28'' =
             Some (fst (getCurrentWeekEntries ?st))" by auto
  from t week_1970(2)
  have u: "weeklyEntriesCache (updateEntry ?st ''1970-01-01'' (Num 5)) = None \<and>
           production (fst (getCurrentWeekEntries (updateEntry ?st ''1970-01-01'' (Num 5))) ! 4) = Num 5"
    by simp
  from t re r m format_1970
  have s: "length ?w = 7 \<and>
           (\<exists>k<7. date (?w ! k) = Some ''1970-01-01'' \<and> production (?w ! k) = Num 5)" by simp
  then obtain k where k: "k < length ?w" "date (?w ! k) = Some ''1970-01-01''"
    "production (?w ! k) = Num 5" by auto
  from k(1) have "?w ! k \<in> set ?w" by (rule nth_mem)
  then have "(date (?w ! k), production (?w ! k)) \<in> (\<lambda>e. (date e, production e)) ` set ?w"
    by (rule imageI)
  then have mem: "(Some ''1970-01-01'', Num 5) \<in> (\<lambda>e. (date e, production e)) ` set ?w"
    by (simp only: k(2,3))
  from s have len: "length ?w = 7" by blast
  have a: "\<not> js_lt (Num 5) (Num 0) \<and> \<not> js_gt (Num 5) (Num 100) \<and> (4::nat) < 7 \<and>
           \<not> date_gt (Time 0) (Time 0)" by simp
  from a r re sel format_1970 week_1970 m c u len mem show ?thesis by blast
qed

text \<open>
  C2. On a cache miss the week has seven entries, dated with the seven days from the
  Sunday on or before the selected date, each with the pending value, else the stored
  value, else 0 (\<open>getCurrentWeekEntries_miss\<close>, \<open>startOfWeek_is_sunday_of_week\<close>). The load path writes the map and does
  not invalidate the cache, as \<^verbatim>\<open>updateEntry\<close> and \<^verbatim>\<open>updateEntriesState\<close> do: a week
  materialized before the stored entries arrive is returned again afterwards. Here the
  date is selected (1970-01-01), the week is materialized, storage delivers an entry of
  5 kWh for that day, and the next materialization still shows 0 for it.
\<close>

theorem week_stale_after_load:
  "(case loadEntries (\<lambda>s. NaN)
           (snd (getCurrentWeekEntries (initial\<lparr>selectedDate := Some (Time 0)\<rparr>)))
           (Some [Some \<lparr>raw_id = Some ''a'', raw_date = Some ''1970-01-01'',
                        raw_production = JNumber (Num 5)\<rparr>]) of
      Loaded st \<Rightarrow>
        selectedDate st = Some (Time 0) \<and>
        pendingUpdatesRef st ''1970-01-01'' = None \<and>
        entriesMapRef st (Some ''1970-01-01'') =
          Some \<lparr>date = Some ''1970-01-01'', production = Num 5, id' = ''a''\<rparr> \<and>
        date (fst (getCurrentWeekEntries st) ! 4) = Some ''1970-01-01'' \<and>
        production (fst (getCurrentWeekEntries st) ! 4) = Num 0
    | Thrown st \<Rightarrow> False
    | Diverges \<Rightarrow> False)"
proof -
  let ?st1 = "initial\<lparr>selectedDate := Some (Time 0)\<rparr>"
  let ?raw = "\<lparr>raw_id = Some ''a'', raw_date = Some ''1970-01-01'',
                   raw_production = JNumber (Num 5)\<rparr>"
  have sel: "selectedDate ?st1 = Some (Time 0)" by simp
  have miss: "cached ?st1 ''1969-12-28'' = None" by (simp add: cached_def initial_def)
  from getCurrentWeekEntries_miss [OF sel week_1970(1) miss] obtain es c where
    g: "getCurrentWeekEntries ?st1 =
          (es, ?st1\<lparr>weeklyEntriesCache := Some (''1969-12-28'', es), nextUUID := c\<rparr>)"
    and days: "\<forall>i<7. \<exists>wd. format_yyyy_MM_dd (addDays (startOfWeek (Time 0)) (int i)) = Inr wd \<and>
              date (es ! i) = Some wd \<and> production (es ! i) = spec_dayProduction ?st1 wd"
    by blast
  let ?st2 = "?st1\<lparr>weeklyEntriesCache := Some (''1969-12-28'', es), nextUUID := c\<rparr>"
  have "(4::nat) < 7" by simp
  with days have "\<exists>wd. format_yyyy_MM_dd (addDays (startOfWeek (Time 0)) (int 4)) = Inr wd \<and>
              date (es ! 4) = Some wd \<and> production (es ! 4) = spec_dayProduction ?st1 wd"
    by blast
  then have d4: "date (es ! 4) = Some ''1970-01-01''"
    "production (es ! 4) = spec_dayProduction ?st1 ''1970-01-01''"
    unfolding week_1970(2) by blast+
  have "spec_dayProduction ?st1 ''1970-01-01'' = Num 0"
    by (simp add: spec_dayProduction_def initial_def)
  with d4 have p4: "production (es ! 4) = Num 0" by simp
  have s2: "snd (getCurrentWeekEntries ?st1) = ?st2" by (simp only: g snd_conv)
  have "length [?raw] \<le> 50" by simp
  from loadEntries_one_chunk [OF this, of "\<lambda>s. NaN" ?st2]
  obtain st3 where l: "loadEntries (\<lambda>s. NaN) ?st2 (Some [Some ?raw]) = Loaded st3"
    and m: "entriesMapRef st3 = setAll (entriesMapRef ?st2)
               (fst (processedObjects (\<lambda>s. NaN) [?raw] (nextUUID ?st2)))"
    by simp
  from loadEntries_keeps [OF l] have k: "weeklyEntriesCache st3 = Some (''1969-12-28'', es)"
    "selectedDate st3 = Some (Time 0)" "pendingUpdatesRef st3 = Map.empty"
    by (simp_all add: initial_def)
  have "cached st3 ''1969-12-28'' = Some es" using k(1) by (simp add: cached_def)
  from getCurrentWeekEntries_hit [OF k(2) week_1970(1) this]
  have hit: "getCurrentWeekEntries st3 = (es, st3)" .
  have look: "entriesMapRef st3 (Some ''1970-01-01'') =
          Some \<lparr>date = Some ''1970-01-01'', production = Num 5, id' = ''a''\<rparr>"
    unfolding m by (simp add: setAll_def)
  have "selectedDate st3 = Some (Time 0) \<and>
        pendingUpdatesRef st3 ''1970-01-01'' = None \<and>
        entriesMapRef st3 (Some ''1970-01-01'') =
          Some \<lparr>date = Some ''1970-01-01'', production = Num 5, id' = ''a''\<rparr> \<and>
        date (fst (getCurrentWeekEntries st3) ! 4) = Some ''1970-01-01'' \<and>
        production (fst (getCurrentWeekEntries st3) ! 4) = Num 0"
    using k(2) k(3) look d4(1) p4 by (simp add: hit)
  then show ?thesis unfolding s2 l by simp
qed

section \<open>What the bulk load stores\<close>

text \<open>The listing after the load of a batch of objects. Only the elements of the last
  chunk are appended (for a batch of more than 50 elements the earlier chunks reach the
  map only), next to the comment \<^verbatim>\<open>All chunks processed, update state\<close>.\<close>

lemma loadEntries_listing_last_chunk:
  assumes "loadEntries s2n st (Some (map Some os)) = Loaded st'"
  shows "entries st' = entries st @
           drop (50 * ((length os - 1) div 50)) (fst (processedObjects s2n os (nextUUID st)))"
  using assms processChunk_closed [of 50 s2n st os 0] by (auto simp: loadEntries_def)

text \<open>A batch of 51 objects: one element reaches the listing.\<close>

lemma loadEntries_51:
  assumes "loadEntries s2n st (Some (map Some os)) = Loaded st'" and "length os = 51"
  shows "length (entries st') = length (entries st) + 1"
  using loadEntries_listing_last_chunk [OF assms(1)] assms(2)
  by (simp add: processedObjects_length)






section \<open>The debounced save\<close>

lemma saveEffect_ready:
  assumes inv: "timer_inv st" and r: "ready st"
  shows "timers (saveEffect st) = [(nextTimer st, now st + 500, entries st)]"
    and "saveTimeoutRef (saveEffect st) = Some (nextTimer st)"
    and "saveCleanup (saveEffect st)"
    and "writes (saveEffect st) = writes st"
    and "now (saveEffect st) = now st"
    and "nextTimer (saveEffect st) = Suc (nextTimer st)"
    and "isLoading (saveEffect st) = isLoading st"
    and "isInitialized (saveEffect st) = isInitialized st"
    and "initialRenderRef (saveEffect st) = initialRenderRef st"
proof -
  define st0 where "st0 = (if saveCleanup st then saveEffectCleanup st else st)"
  have t0: "timers st0 = []"
    using inv
    by (auto simp: st0_def timer_inv_def saveEffectCleanup_def clearTimeout_def
        split: option.splits)
  have f0: "isLoading st0 = isLoading st" "isInitialized st0 = isInitialized st"
    "initialRenderRef st0 = initialRenderRef st" "entries st0 = entries st"
    "nextTimer st0 = nextTimer st" "now st0 = now st" "writes st0 = writes st"
    by (simp_all add: st0_def)
  define st1 where "st1 = st0\<lparr>entriesMapRef := setAll Map.empty (entries st0)\<rparr>"
  define st2 where "st2 = (case saveTimeoutRef st1 of None \<Rightarrow> st1 | Some i \<Rightarrow> clearTimeout i st1)"
  have t2: "timers st2 = []"
    using t0 by (simp add: st2_def st1_def clearTimeout_def split: option.splits)
  have f2: "isLoading st2 = isLoading st" "isInitialized st2 = isInitialized st"
    "initialRenderRef st2 = initialRenderRef st" "entries st2 = entries st"
    "nextTimer st2 = nextTimer st" "now st2 = now st" "writes st2 = writes st"
    by (simp_all add: st2_def st1_def f0 split: option.splits)
  have g: "\<not> (isLoading st0 \<or> \<not> isInitialized st0 \<or> initialRenderRef st0)"
    using r by (simp add: ready_def f0)
  have s: "saveEffect st =
      st2\<lparr>timers := timers st2 @ [(nextTimer st2, now st2 + 500, entries st2)],
          nextTimer := Suc (nextTimer st2),
          saveTimeoutRef := Some (nextTimer st2),
          saveCleanup := True\<rparr>"
    unfolding saveEffect_def st0_def [symmetric] Let_def st1_def [symmetric] st2_def [symmetric]
    using g by simp
  show "timers (saveEffect st) = [(nextTimer st, now st + 500, entries st)]"
    and "saveTimeoutRef (saveEffect st) = Some (nextTimer st)"
    and "saveCleanup (saveEffect st)"
    and "writes (saveEffect st) = writes st"
    and "now (saveEffect st) = now st"
    and "nextTimer (saveEffect st) = Suc (nextTimer st)"
    and "isLoading (saveEffect st) = isLoading st"
    and "isInitialized (saveEffect st) = isInitialized st"
    and "initialRenderRef (saveEffect st) = initialRenderRef st"
    by (simp_all add: s t2 f2)
qed

lemma saveEffect_not_ready:
  assumes inv: "timer_inv st" and r: "\<not> ready st"
  shows "timers (saveEffect st) = []"
proof -
  define st0 where "st0 = (if saveCleanup st then saveEffectCleanup st else st)"
  have t0: "timers st0 = []"
    using inv
    by (auto simp: st0_def timer_inv_def saveEffectCleanup_def clearTimeout_def
        split: option.splits)
  have f0: "isLoading st0 = isLoading st" "isInitialized st0 = isInitialized st"
    "initialRenderRef st0 = initialRenderRef st"
    by (simp_all add: st0_def)
  have "saveEffect st = st0\<lparr>initialRenderRef := False, saveCleanup := False\<rparr>"
    unfolding saveEffect_def st0_def [symmetric] using r by (simp add: ready_def f0 Let_def)
  with t0 show ?thesis by simp
qed

lemma timer_inv_saveEffect: "timer_inv st \<Longrightarrow> timer_inv (saveEffect st)"
proof (cases "ready st")
  case True
  assume "timer_inv st"
  from saveEffect_ready(1-3) [OF this True] show ?thesis by (simp add: timer_inv_def)
next
  case False
  assume "timer_inv st"
  from saveEffect_not_ready [OF this False] show ?thesis by (simp add: timer_inv_def)
qed

lemma advance_no_timer:
  "timers st = [] \<Longrightarrow> advance st dt = st\<lparr>timers := [], now := now st + dt\<rparr>"
  by (simp add: advance_def Let_def)

lemma advance_early:
  assumes "timers st = [(t, due, snap)]" and "\<not> due \<le> now st + dt"
  shows "advance st dt = st\<lparr>timers := [(t, due, snap)], now := now st + dt\<rparr>"
  using assms by (simp add: advance_def Let_def)

lemma advance_due:
  assumes "timers st = [(t, due, snap)]" and "due \<le> now st + dt"
  shows "advance st dt =
           st\<lparr>writes := writes st @ [snap], saveTimeoutRef := None, timers := [],
              now := now st + dt\<rparr>"
  using assms by (simp add: advance_def Let_def fire_def)

lemma timer_inv_advance: "timer_inv st \<Longrightarrow> timer_inv (advance st dt)"
proof -
  assume inv: "timer_inv st"
  show ?thesis
  proof (cases "timers st = []")
    case True
    then show ?thesis by (simp add: advance_no_timer timer_inv_def)
  next
    case False
    with inv obtain t due snap where t: "timers st = [(t, due, snap)]"
      "saveTimeoutRef st = Some t" "saveCleanup st" by (auto simp: timer_inv_def)
    show ?thesis
    proof (cases "due \<le> now st + dt")
      case True
      from advance_due [OF t(1) True] show ?thesis by (simp add: timer_inv_def)
    next
      case False
      from advance_early [OF t(1) False] t show ?thesis by (simp add: timer_inv_def)
    qed
  qed
qed

lemma timer_inv_same: "same_timing st st' \<Longrightarrow> timer_inv st \<Longrightarrow> timer_inv st'"
  by (simp add: same_timing_def timer_inv_def)

lemma same_timing_updateEntry: "same_timing st (updateEntry st d p)"
  by (simp add: same_timing_def updateEntry_def setEntriesUpdate_def Let_def split: option.splits)

lemma same_timing_handleEditBlur: "same_timing st (handleEditBlur st d v)"
  using same_timing_updateEntry by (simp add: handleEditBlur_def same_timing_def)

lemma same_timing_onSubmit: "same_timing st (onSubmit st today v)"
  by (simp add: same_timing_def onSubmit_def updateEntriesState_def Let_def
      split: option.splits sum.splits)

lemma same_timing_handleSubmit: "same_timing st (handleSubmit st today v)"
  using same_timing_onSubmit by (simp add: handleSubmit_def same_timing_def split: option.splits)

lemma same_timing_week: "same_timing st (snd (getCurrentWeekEntries st))"
proof (cases "selectedDate st")
  case None
  then show ?thesis by (simp add: getCurrentWeekEntries_def same_timing_def)
next
  case (Some d)
  show ?thesis
  proof (cases "format_yyyy_MM_dd (startOfWeek d)")
    case (Inl x)
    with Some show ?thesis by (simp add: getCurrentWeekEntries_def Let_def same_timing_def)
  next
    case (Inr ws)
    then obtain t where t: "d = Time t" by (cases d) auto
    show ?thesis
    proof (cases "cached st ws")
      case (Some es)
      with \<open>selectedDate st = Some d\<close> Inr t have "getCurrentWeekEntries st = (es, st)"
        using getCurrentWeekEntries_hit by blast
      then show ?thesis by (simp add: same_timing_def)
    next
      case None
      from getCurrentWeekEntries_miss [OF _ _ None, of t] \<open>selectedDate st = Some d\<close> Inr t
      obtain es c where "getCurrentWeekEntries st =
            (es, st\<lparr>weeklyEntriesCache := Some (ws, es), nextUUID := c\<rparr>)" by blast
      then show ?thesis by (simp add: same_timing_def)
    qed
  qed
qed

lemma same_timing_load:
  assumes "loadEntries s2n st saved = Loaded st'"
  shows "same_timing st st'"
proof (cases saved)
  case None
  with assms show ?thesis by (auto simp: loadEntries_def same_timing_def)
next
  case (Some ents)
  with assms processChunk_frame [where s2n = s2n and st = st and ents = ents and start = 0
      and cs = 50] show ?thesis
    by (simp add: loadEntries_def same_timing_def)
qed

lemma reachable_timer_inv: "reachable st \<Longrightarrow> timer_inv st"
proof (induction rule: reachable.induct)
  case r_initial
  then show ?case by (simp add: timer_inv_def initial_def)
next
  case (r_setDate st d)
  then show ?case by (simp add: timer_inv_def)
next
  case (r_edit st d v)
  then show ?case using timer_inv_same [OF same_timing_handleEditBlur] by blast
next
  case (r_submit st today v)
  then show ?case using timer_inv_same [OF same_timing_handleSubmit] by blast
next
  case (r_week st)
  then show ?case using timer_inv_same [OF same_timing_week] by blast
next
  case (r_effect st)
  then show ?case by (simp add: timer_inv_saveEffect)
next
  case (r_time st dt)
  then show ?case by (simp add: timer_inv_advance)
next
  case (r_load st s2n ents st')
  then show ?case using timer_inv_same [OF same_timing_load] by blast
next
  case (r_load_none st s2n st')
  then show ?case using timer_inv_same [OF same_timing_load] by blast
qed

lemma foldl_fire_flags:
  "isLoading (foldl fire st ts) = isLoading st \<and>
   isInitialized (foldl fire st ts) = isInitialized st \<and>
   initialRenderRef (foldl fire st ts) = initialRenderRef st"
  by (induction ts arbitrary: st) (simp_all add: fire_def split: prod.splits)

lemma ready_advance: "ready (advance st dt) = ready st"
  using foldl_fire_flags by (simp add: advance_def Let_def ready_def)

lemma ready_saveEffect: "timer_inv st \<Longrightarrow> ready st \<Longrightarrow> ready (saveEffect st)"
  using saveEffect_ready(7-9) by (simp add: ready_def)

lemma ready_updateEntry: "ready (updateEntry st d p) = ready st"
  by (simp add: ready_def updateEntry_def setEntriesUpdate_def Let_def split: option.splits)

text \<open>
  C8. Time is the clock of the timer table, in milliseconds. A mutation is followed by a
  run of the save effect, which schedules the write of the entries it saw, 500 ms ahead.
  When a second mutation follows within less than 500 ms, nothing has been written yet,
  the effect's next run clears the pending timer and sets a new one, due 500 ms after
  the second mutation, with the new entries; nothing is written before that, and once it
  is due exactly one write has been added to the log, carrying the entries after the
  second mutation, and no timer is left. In every reachable state at most one timer is
  pending.
\<close>

theorem debounced_save_writes_once:
  assumes "timer_inv a" and "ready a" and "d1 < 500"
    and "same_timing (advance (saveEffect a) d1) b" and "ready b"
    and "d3 < 500" and "500 \<le> d2"
  shows "timers (saveEffect a) = [(nextTimer a, now a + 500, entries a)] \<and>
         writes (advance (saveEffect a) d1) = writes a \<and>
         timers (saveEffect b) = [(nextTimer b, now a + d1 + 500, entries b)] \<and>
         writes (advance (saveEffect b) d3) = writes a \<and>
         writes (advance (saveEffect b) d2) = writes a @ [entries b] \<and>
         timers (advance (saveEffect b) d2) = [] \<and>
         (\<forall>st. reachable st \<longrightarrow> length (timers st) \<le> 1)"
proof -
  let ?s1 = "saveEffect a"
  note s1 = saveEffect_ready [OF assms(1,2)]
  have early: "\<not> now a + 500 \<le> now ?s1 + d1" using assms(3) s1(5) by simp
  note s2 = advance_early [OF s1(1) early]
  have w2: "writes (advance ?s1 d1) = writes a" using s2 s1(4) by simp
  have inv2: "timer_inv (advance ?s1 d1)" using assms(1)
    by (intro timer_inv_advance timer_inv_saveEffect)
  have invb: "timer_inv b" using assms(4) inv2 by (rule timer_inv_same)
  have nb: "now b = now a + d1" "writes b = writes a"
    using assms(4) s2 s1(4,5) by (simp_all add: same_timing_def)
  note s3 = saveEffect_ready [OF invb assms(5)]
  have t3: "timers (saveEffect b) = [(nextTimer b, now a + d1 + 500, entries b)]"
    using s3(1) nb(1) by simp
  have early3: "\<not> now a + d1 + 500 \<le> now (saveEffect b) + d3" using assms(6) s3(5) nb(1) by simp
  have w3: "writes (advance (saveEffect b) d3) = writes a"
    using advance_early [OF t3 early3] s3(4) nb(2) by simp
  have due: "now a + d1 + 500 \<le> now (saveEffect b) + d2" using assms(7) s3(5) nb(1) by simp
  note s4 = advance_due [OF t3 due]
  have w4: "writes (advance (saveEffect b) d2) = writes a @ [entries b]"
    using s4 s3(4) nb(2) by simp
  have t4: "timers (advance (saveEffect b) d2) = []" using s4 by simp
  have one: "\<forall>st. reachable st \<longrightarrow> length (timers st) \<le> 1"
  proof (intro allI impI)
    fix st assume "reachable st"
    then have "timer_inv st" by (rule reachable_timer_inv)
    then show "length (timers st) \<le> 1" by (auto simp: timer_inv_def)
  qed
  from s1(1) w2 t3 w3 w4 t4 one show ?thesis by blast
qed

theorem debounced_save_writes_once_witness:
  "timer_inv (initial\<lparr>isLoading := False, isInitialized := True, initialRenderRef := False\<rparr>) \<and>
   ready (initial\<lparr>isLoading := False, isInitialized := True, initialRenderRef := False\<rparr>) \<and>
   (100::nat) < 500 \<and> (499::nat) < 500 \<and> (500::nat) \<le> 500 \<and>
   same_timing
     (advance (saveEffect
        (initial\<lparr>isLoading := False, isInitialized := True, initialRenderRef := False\<rparr>)) 100)
     (updateEntry (advance (saveEffect
        (initial\<lparr>isLoading := False, isInitialized := True, initialRenderRef := False\<rparr>)) 100)
        ''1970-01-01'' (Num 7)) \<and>
   writes (advance (saveEffect
     (updateEntry (advance (saveEffect
        (initial\<lparr>isLoading := False, isInitialized := True, initialRenderRef := False\<rparr>)) 100)
        ''1970-01-01'' (Num 7))) 500) =
     [entries (updateEntry (advance (saveEffect
        (initial\<lparr>isLoading := False, isInitialized := True, initialRenderRef := False\<rparr>)) 100)
        ''1970-01-01'' (Num 7))]"
proof -
  let ?a = "initial\<lparr>isLoading := False, isInitialized := True, initialRenderRef := False\<rparr>"
  let ?b = "updateEntry (advance (saveEffect ?a) 100) ''1970-01-01'' (Num 7)"
  have i: "timer_inv ?a" by (simp add: timer_inv_def initial_def)
  have r: "ready ?a" by (simp add: ready_def)
  have st: "same_timing (advance (saveEffect ?a) 100) ?b" by (rule same_timing_updateEntry)
  have rb: "ready ?b" using i r by (simp add: ready_updateEntry ready_advance ready_saveEffect)
  have w: "writes ?a = []" by (simp add: initial_def)
  from debounced_save_writes_once [OF i r _ st rb, of 499 500]
  have "writes (advance (saveEffect ?b) 500) = writes ?a @ [entries ?b]" by simp
  with i r st w show ?thesis by simp
qed


end
